theory Spec2Isabelle
  imports
    Main
    "HOL-Library.Char_ord"
    "HOL-Library.List_Lexorder"
    "HOL-Library.Sublist"
begin

section \<open>The wildcard matcher\<close>

text \<open>
  \<^verbatim>\<open>is_matching(topic, pattern)\<close> of \<^verbatim>\<open>msgbus.pyx\<close> fills a table
  \<^verbatim>\<open>t\<close> of \<^verbatim>\<open>(n + 1) * (m + 1)\<close> cells, first set to False everywhere.
  The table is a function from index pairs to cells; the cells the source never allocates
  are never read. A Python string is a sequence of characters, modelled as \<^typ>\<open>string\<close>.
  The lengths are far below the range of a C \<^verbatim>\<open>int\<close>, so they are natural numbers.
\<close>

type_synonym table = "nat \<times> nat \<Rightarrow> bool"

text \<open>The body of the loop over \<^verbatim>\<open>j\<close> for the empty topic (row 0).\<close>

definition empty_case_step :: "string \<Rightarrow> nat \<Rightarrow> table \<Rightarrow> table" where
  "empty_case_step pattern j t =
     (if pattern ! (j - 1) = CHR ''*'' then t((0, j) := t (0, j - 1)) else t)"

text \<open>The body of the inner loop, for the cell \<^verbatim>\<open>t[i, j]\<close>.\<close>

definition cell_step :: "string \<Rightarrow> string \<Rightarrow> nat \<Rightarrow> nat \<Rightarrow> table \<Rightarrow> table" where
  "cell_step topic pattern i j t =
     (if pattern ! (j - 1) = CHR ''*'' then t((i, j) := (t (i - 1, j) \<or> t (i, j - 1)))
      else if pattern ! (j - 1) = CHR ''?'' \<or> topic ! (i - 1) = pattern ! (j - 1)
      then t((i, j) := t (i - 1, j - 1))
      else t)"

text \<open>The inner loop \<^verbatim>\<open>for j in range(1, m + 1)\<close> of row \<^verbatim>\<open>i\<close>.\<close>

definition row_step :: "string \<Rightarrow> string \<Rightarrow> nat \<Rightarrow> table \<Rightarrow> table" where
  "row_step topic pattern i t = fold (cell_step topic pattern i) [1..<length pattern + 1] t"

definition is_matching :: "string \<Rightarrow> string \<Rightarrow> bool" where
  "is_matching topic pattern =
     (let n = length topic;
          m = length pattern;
          t0 = (\<lambda>_. False)((0, 0) := True);
          t1 = fold (empty_case_step pattern) [1..<m + 1] t0;
          t2 = fold (row_step topic pattern) [1..<n + 1] t1
      in t2 (n, m))"

text \<open>
  The glob semantics in the words of the specification: the pattern is read character by
  character, and each pattern character accounts for one segment of the topic. A
  \<^verbatim>\<open>?\<close> accounts for exactly one character, a \<^verbatim>\<open>*\<close> for zero or more
  characters, and any other character for itself.
\<close>

definition token_matches :: "char \<Rightarrow> string \<Rightarrow> bool" where
  "token_matches p seg =
     (if p = CHR ''*'' then True
      else if p = CHR ''?'' then length seg = 1
      else seg = [p])"

definition glob_matches :: "string \<Rightarrow> string \<Rightarrow> bool" where
  "glob_matches topic pattern =
     (\<exists>segs. concat segs = topic \<and> list_all2 token_matches pattern segs)"


section \<open>The message bus\<close>

subsection \<open>Values, handlers and observable effects\<close>

text \<open>
  A handler is an opaque Python callable. The bus only compares handlers and calls them, so
  a handler is its identity together with what a call of it does as far as the bus can see:
  return, or raise. Handlers that call back into the bus are outside this model.
\<close>

datatype handler = Handler (handler_id: nat) (raises: bool)

type_synonym UUID4 = nat
type_synonym pytype = string
type_synonym bytes = string

text \<open>
  A message is any Python object. The bus looks at nothing but its class, through
  \<^verbatim>\<open>isinstance\<close>; \<open>mro\<close> is the method resolution order of the class of the
  object: the class itself first, then its base classes.
\<close>

datatype message = Message (mro: "pytype list") (content: nat)

text \<open>
  Modelled from the spec: the classes \<^verbatim>\<open>Request\<close> and \<^verbatim>\<open>Response\<close>
  (\<^verbatim>\<open>nautilus_trader.core.message\<close>) are not among the sources. A request carries
  at least an identifier and a one-argument callback; a response carries the correlation
  identifier of the request it answers.
\<close>

datatype Request = Request (request_id: UUID4) (callback: handler)

datatype Response = Response (correlation_id: UUID4) (response_content: nat)

datatype argument = Msg message | Req Request | Resp Response

datatype error =
    InvalidArgument
  | AlreadyRegistered
  | NotRegistered
  | HandlerMismatch
  | OverflowError
  | TypeError
  | KeyError
  | ValueError
  | SerializationError
  | HandlerException handler

datatype outcome = Returned | Raised error

text \<open>\<^verbatim>\<open>Subscription\<close>: topic pattern, handler and priority.\<close>

datatype Subscription =
  Subscription (sub_topic: string) (sub_handler: handler) (sub_priority: int)

datatype log_level = LogDebug | LogWarning | LogError

text \<open>The log lines of the bus, by the place that writes them (the text is not modelled).\<close>

datatype log_line =
    AddedEndpoint string
  | RemovedEndpoint string
  | CannotSend string
  | DuplicateRequestId UUID4
  | CannotHandleRequest string
  | CallbackNotFound UUID4
  | SubscriptionExists Subscription
  | AddedSubscription Subscription
  | SubscriptionNotFound Subscription
  | RemovedSubscription Subscription

text \<open>
  What the bus does to its collaborators, in the order in which it happens: a call of a
  handler with its argument, a \<^verbatim>\<open>(topic, payload)\<close> pair handed to the external sink
  (\<^verbatim>\<open>msgbus_publish_external\<close>), a line given to the logger.
\<close>

datatype event = Call handler argument | Emit string bytes | Log log_level log_line

subsection \<open>Python dictionaries and lists\<close>

text \<open>
  A Python \<^verbatim>\<open>dict\<close> keeps its keys in insertion order; it is a list of key-value
  pairs with at most one pair per key. Keys are compared with the key's own
  \<^verbatim>\<open>__eq__\<close>, given as \<open>eq\<close>. Storing under a key that is present keeps the
  stored key object and its position.
\<close>

fun dict_get :: "('k \<Rightarrow> 'k \<Rightarrow> bool) \<Rightarrow> ('k \<times> 'v) list \<Rightarrow> 'k \<Rightarrow> 'v option" where
  "dict_get eq [] k = None"
| "dict_get eq ((k', v') # d) k = (if eq k' k then Some v' else dict_get eq d k)"

fun dict_set :: "('k \<Rightarrow> 'k \<Rightarrow> bool) \<Rightarrow> ('k \<times> 'v) list \<Rightarrow> 'k \<Rightarrow> 'v \<Rightarrow> ('k \<times> 'v) list" where
  "dict_set eq [] k v = [(k, v)]"
| "dict_set eq ((k', v') # d) k v =
     (if eq k' k then (k', v) # d else (k', v') # dict_set eq d k v)"

definition dict_del :: "('k \<Rightarrow> 'k \<Rightarrow> bool) \<Rightarrow> ('k \<times> 'v) list \<Rightarrow> 'k \<Rightarrow> ('k \<times> 'v) list" where
  "dict_del eq d k = filter (\<lambda>kv. \<not> eq (fst kv) k) d"

definition dict_keys :: "('k \<times> 'v) list \<Rightarrow> 'k list" where
  "dict_keys d = map fst d"

text \<open>\<^verbatim>\<open>Subscription.__eq__\<close>: topic and handler, not the priority.\<close>

definition sub_eq :: "Subscription \<Rightarrow> Subscription \<Rightarrow> bool" where
  "sub_eq a b = (sub_topic a = sub_topic b \<and> sub_handler a = sub_handler b)"

text \<open>
  \<^verbatim>\<open>list.remove(x)\<close> removes the first item equal to \<^verbatim>\<open>x\<close> and raises
  \<^verbatim>\<open>ValueError\<close> (here \<open>None\<close>) when there is none.
\<close>

fun list_remove :: "Subscription \<Rightarrow> Subscription list \<Rightarrow> Subscription list option" where
  "list_remove x [] = None"
| "list_remove x (y # ys) =
     (if sub_eq y x then Some ys else map_option ((#) y) (list_remove x ys))"

text \<open>
  \<^verbatim>\<open>sorted(subs, reverse=True)\<close>: Python reverses the list, sorts it stably with
  \<^verbatim>\<open>__lt__\<close> (which compares priorities) and reverses the result.
\<close>

definition sorted_reverse :: "Subscription list \<Rightarrow> Subscription list" where
  "sorted_reverse subs = rev (sort_key sub_priority (rev subs))"

text \<open>
  \<^verbatim>\<open>isinstance(msg, types)\<close> for a tuple of classes: some class of the tuple is the
  class of the object or one of its base classes.
\<close>

definition isinstance :: "message \<Rightarrow> pytype list \<Rightarrow> bool" where
  "isinstance msg types = list_ex (\<lambda>t. t \<in> set (mro msg)) types"

subsection \<open>Argument checks\<close>

text \<open>
  Modelled from the spec: the class \<^verbatim>\<open>Condition\<close>
  (\<^verbatim>\<open>nautilus_trader.core.correctness\<close>) is not among the sources. Its checks raise
  to the caller: \<^verbatim>\<open>valid_string\<close> on a null or empty string,
  \<^verbatim>\<open>callable\<close> on a null handler, \<^verbatim>\<open>not_none\<close> on a null argument,
  \<^verbatim>\<open>not_negative_int\<close> on a negative integer. All of them are errors of the kind
  \<open>InvalidArgument\<close>. A null argument is \<open>None\<close>.
\<close>

definition valid_string :: "string option \<Rightarrow> bool" where
  "valid_string s = (case s of None \<Rightarrow> False | Some v \<Rightarrow> v \<noteq> [])"

definition callable :: "handler option \<Rightarrow> bool" where
  "callable h = (h \<noteq> None)"

definition not_negative_int :: "int \<Rightarrow> bool" where
  "not_negative_int i = (0 \<le> i)"

text \<open>
  The parameter \<^verbatim>\<open>int priority\<close> is a C \<^verbatim>\<open>int\<close>: a Python integer outside
  its range raises \<^verbatim>\<open>OverflowError\<close> when the call converts it.
\<close>

definition fits_c_int :: "int \<Rightarrow> bool" where
  "fits_c_int i = (- (2 ^ 31) \<le> i \<and> i < 2 ^ 31)"

text \<open>
  \<^verbatim>\<open>Subscription.__init__(self, str topic, handler not None, int priority=0)\<close>.
  Two checks of the signature come before the body. The parameter
  \<^verbatim>\<open>int priority\<close> is a C \<^verbatim>\<open>int\<close> too: the conversion of the argument raises
  \<^verbatim>\<open>OverflowError\<close> outside the range. The clause \<^verbatim>\<open>handler not None\<close> then
  raises \<^verbatim>\<open>TypeError\<close> on a null handler. The checks of the body follow:
  \<^verbatim>\<open>valid_string\<close>, \<^verbatim>\<open>callable\<close>, \<^verbatim>\<open>not_negative_int\<close>.
\<close>

definition Subscription_init :: "string option \<Rightarrow> handler option \<Rightarrow> int \<Rightarrow> error + Subscription" where
  "Subscription_init topic handler priority =
     (if \<not> fits_c_int priority then Inl OverflowError
      else if handler = None then Inl TypeError
      else if \<not> valid_string topic then Inl InvalidArgument
      else if \<not> callable handler then Inl InvalidArgument
      else if \<not> not_negative_int priority then Inl InvalidArgument
      else (case (topic, handler) of
              (Some tp, Some h) \<Rightarrow> Inr (Subscription tp h priority)
            | _ \<Rightarrow> Inl InvalidArgument))"

subsection \<open>The state of the bus\<close>

text \<open>
  The fields of \<^verbatim>\<open>MessageBus\<close> (the leading underscore of the private ones is
  written \<open>m_\<close>), and the trace of what the bus did to its collaborators. The counters are
  declared outside the sources; they are integers that start at zero.
\<close>

record MessageBus =
  m_endpoints :: "(string \<times> handler) list"
  m_patterns :: "(string \<times> Subscription list) list"
  m_subscriptions :: "(Subscription \<times> string list) list"
  m_correlation_index :: "(UUID4 \<times> handler) list"
  m_has_backing :: bool
  m_serializer :: "(message \<Rightarrow> bytes option) option"
  m_publishable_types :: "pytype list"
  sent_count :: int
  req_count :: int
  res_count :: int
  pub_count :: int
  trace :: "event list"

definition log_line :: "log_level \<Rightarrow> log_line \<Rightarrow> MessageBus \<Rightarrow> MessageBus" where
  "log_line level line b = b\<lparr>trace := trace b @ [Log level line]\<rparr>"

text \<open>
  Calling a handler: the call happens, and either returns or raises. An exception of a
  handler is not caught by the bus.
\<close>

definition call :: "handler \<Rightarrow> argument \<Rightarrow> MessageBus \<Rightarrow> outcome \<times> MessageBus" where
  "call h arg b =
     (if raises h then Raised (HandlerException h) else Returned,
      b\<lparr>trace := trace b @ [Call h arg]\<rparr>)"

text \<open>The handler calls recorded in a trace, and the pairs given to the external sink.\<close>

fun calls :: "event list \<Rightarrow> (handler \<times> argument) list" where
  "calls [] = []"
| "calls (Call h arg # es) = (h, arg) # calls es"
| "calls (e # es) = calls es"

fun emitted :: "event list \<Rightarrow> (string \<times> bytes) list" where
  "emitted [] = []"
| "emitted (Emit topic payload # es) = (topic, payload) # emitted es"
| "emitted (e # es) = emitted es"

subsection \<open>Construction\<close>

text \<open>
  Modelled from the spec: the class \<^verbatim>\<open>MessageBusConfig\<close> is not among the sources.
  A non-null \<open>database\<close> enables the external sink; \<open>types_filter\<close> is a collection of
  message types excluded from external publishing, or null. A default configuration has
  neither.
\<close>

record MessageBusConfig =
  database :: "string option"
  types_filter :: "pytype list option"

definition default_config :: MessageBusConfig where
  "default_config = \<lparr>database = None, types_filter = None\<rparr>"

text \<open>
  \<^verbatim>\<open>MessageBus.__init__\<close>. The constant \<^verbatim>\<open>EXTERNAL_PUBLISHING_TYPES\<close> is
  imported from outside the sources and is a parameter here. The trader identifier, the
  clock, the logger and the instance identifier do not influence the state modelled here and
  are left out. The constructor clears the \<open>types_filter\<close> of the configuration it is
  given; the configuration after the call is returned with the new bus.
\<close>

definition MessageBus_init ::
  "string option \<Rightarrow> (message \<Rightarrow> bytes option) option \<Rightarrow> MessageBusConfig option \<Rightarrow> pytype list \<Rightarrow>
     error + MessageBus \<times> MessageBusConfig" where
  "MessageBus_init name serializer config EXTERNAL_PUBLISHING_TYPES =
     (let name = (case name of None \<Rightarrow> Some ''MessageBus'' | Some v \<Rightarrow> Some v) in
      if \<not> valid_string name then Inl InvalidArgument
      else
        let config = (case config of None \<Rightarrow> default_config | Some c \<Rightarrow> c);
            filter_copy = types_filter config;
            config' = (case types_filter config of
                         None \<Rightarrow> config
                       | Some _ \<Rightarrow> config\<lparr>types_filter := Some []\<rparr>)
        in Inr (\<lparr>m_endpoints = [],
                 m_patterns = [],
                 m_subscriptions = [],
                 m_correlation_index = [],
                 m_has_backing = (database config \<noteq> None),
                 m_serializer = serializer,
                 m_publishable_types =
                   (case filter_copy of
                      None \<Rightarrow> EXTERNAL_PUBLISHING_TYPES
                    | Some excluded \<Rightarrow>
                        filter (\<lambda>ty. ty \<notin> set excluded) EXTERNAL_PUBLISHING_TYPES),
                 sent_count = 0,
                 req_count = 0,
                 res_count = 0,
                 pub_count = 0,
                 trace = []\<rparr>, config'))"


subsection \<open>Endpoints: register, deregister, send\<close>

definition register :: "MessageBus \<Rightarrow> string option \<Rightarrow> handler option \<Rightarrow> outcome \<times> MessageBus" where
  "register b endpoint handler =
     (if \<not> valid_string endpoint then (Raised InvalidArgument, b)
      else if \<not> callable handler then (Raised InvalidArgument, b)
      else (case (endpoint, handler) of
              (Some e, Some h) \<Rightarrow>
                (case dict_get (=) (m_endpoints b) e of
                   Some _ \<Rightarrow> (Raised AlreadyRegistered, b)
                 | None \<Rightarrow>
                     (Returned,
                      log_line LogDebug (AddedEndpoint e)
                        (b\<lparr>m_endpoints := dict_set (=) (m_endpoints b) e h\<rparr>)))
            | _ \<Rightarrow> (Raised InvalidArgument, b)))"

definition deregister :: "MessageBus \<Rightarrow> string option \<Rightarrow> handler option \<Rightarrow> outcome \<times> MessageBus" where
  "deregister b endpoint handler =
     (if \<not> valid_string endpoint then (Raised InvalidArgument, b)
      else if \<not> callable handler then (Raised InvalidArgument, b)
      else (case (endpoint, handler) of
              (Some e, Some h) \<Rightarrow>
                (case dict_get (=) (m_endpoints b) e of
                   None \<Rightarrow> (Raised NotRegistered, b)
                 | Some registered \<Rightarrow>
                     if h \<noteq> registered then (Raised HandlerMismatch, b)
                     else (Returned,
                           log_line LogDebug (RemovedEndpoint e)
                             (b\<lparr>m_endpoints := dict_del (=) (m_endpoints b) e\<rparr>)))
            | _ \<Rightarrow> (Raised InvalidArgument, b)))"

text \<open>
  \<^verbatim>\<open>send\<close> checks its arguments with \<^verbatim>\<open>Condition.not_none\<close> only, so the
  empty string passes the check.
\<close>

definition send :: "MessageBus \<Rightarrow> string option \<Rightarrow> message option \<Rightarrow> outcome \<times> MessageBus" where
  "send b endpoint msg =
     (case (endpoint, msg) of
        (Some e, Some m) \<Rightarrow>
          (case dict_get (=) (m_endpoints b) e of
             None \<Rightarrow> (Returned, log_line LogError (CannotSend e) b)
           | Some h \<Rightarrow>
               (case call h (Msg m) b of
                  (Raised err, b') \<Rightarrow> (Raised err, b')
                | (Returned, b') \<Rightarrow> (Returned, b'\<lparr>sent_count := sent_count b' + 1\<rparr>)))
      | _ \<Rightarrow> (Raised InvalidArgument, b))"

subsection \<open>Request and response\<close>

definition is_pending_request :: "MessageBus \<Rightarrow> UUID4 option \<Rightarrow> error + bool" where
  "is_pending_request b request_id' =
     (case request_id' of
        None \<Rightarrow> Inl InvalidArgument
      | Some x \<Rightarrow> Inr (dict_get (=) (m_correlation_index b) x \<noteq> None))"

definition request :: "MessageBus \<Rightarrow> string option \<Rightarrow> Request option \<Rightarrow> outcome \<times> MessageBus" where
  "request b endpoint req =
     (case (endpoint, req) of
        (Some e, Some r) \<Rightarrow>
          (case dict_get (=) (m_correlation_index b) (request_id r) of
             Some _ \<Rightarrow> (Returned, log_line LogError (DuplicateRequestId (request_id r)) b)
           | None \<Rightarrow>
               let b1 = b\<lparr>m_correlation_index :=
                            dict_set (=) (m_correlation_index b) (request_id r) (callback r)\<rparr>
               in (case dict_get (=) (m_endpoints b1) e of
                     None \<Rightarrow> (Returned, log_line LogError (CannotHandleRequest e) b1)
                   | Some h \<Rightarrow>
                       (case call h (Req r) b1 of
                          (Raised err, b2) \<Rightarrow> (Raised err, b2)
                        | (Returned, b2) \<Rightarrow> (Returned, b2\<lparr>req_count := req_count b2 + 1\<rparr>))))
      | _ \<Rightarrow> (Raised InvalidArgument, b))"

text \<open>
  \<^verbatim>\<open>response\<close>: \<^verbatim>\<open>self._correlation_index.pop(response.correlation_id, None)\<close>
  reads the callback and deletes the entry before the callback is called.
\<close>

definition response :: "MessageBus \<Rightarrow> Response option \<Rightarrow> outcome \<times> MessageBus" where
  "response b resp =
     (case resp of
        None \<Rightarrow> (Raised InvalidArgument, b)
      | Some r \<Rightarrow>
          (case dict_get (=) (m_correlation_index b) (correlation_id r) of
             None \<Rightarrow> (Returned, log_line LogError (CallbackNotFound (correlation_id r)) b)
           | Some cb \<Rightarrow>
               let b1 = b\<lparr>m_correlation_index :=
                            dict_del (=) (m_correlation_index b) (correlation_id r)\<rparr>
               in (case call cb (Resp r) b1 of
                     (Raised err, b2) \<Rightarrow> (Raised err, b2)
                   | (Returned, b2) \<Rightarrow> (Returned, b2\<lparr>res_count := res_count b2 + 1\<rparr>))))"

subsection \<open>Subscribe and unsubscribe\<close>

text \<open>
  The body of the loop of \<^verbatim>\<open>subscribe\<close> over the keys of \<^verbatim>\<open>_patterns\<close>,
  which are the topics published so far. The source calls
  \<^verbatim>\<open>is_matching(topic, pattern)\<close> with the topic of the new subscription first and the
  cached key second. The key was read from the dictionary and the loop deletes nothing, so
  \<^verbatim>\<open>self._patterns[pattern]\<close> finds it.
\<close>

definition subscribe_step ::
  "Subscription \<Rightarrow> string \<Rightarrow> (string \<times> Subscription list) list \<times> string list \<Rightarrow>
     (string \<times> Subscription list) list \<times> string list" where
  "subscribe_step sub pattern st =
     (case st of (cache, matches) \<Rightarrow>
        if is_matching (sub_topic sub) pattern then
          (case dict_get (=) cache pattern of
             Some subs \<Rightarrow>
               (dict_set (=) cache pattern (sorted_reverse (subs @ [sub])), matches @ [pattern])
           | None \<Rightarrow> (cache, matches))
        else (cache, matches))"

definition subscribe ::
  "MessageBus \<Rightarrow> string option \<Rightarrow> handler option \<Rightarrow> int \<Rightarrow> outcome \<times> MessageBus" where
  "subscribe b topic handler priority =
     (if \<not> fits_c_int priority then (Raised OverflowError, b)
      else if \<not> valid_string topic then (Raised InvalidArgument, b)
      else if \<not> callable handler then (Raised InvalidArgument, b)
      else (case Subscription_init topic handler priority of
              Inl err \<Rightarrow> (Raised err, b)
            | Inr sub \<Rightarrow>
                (case dict_get sub_eq (m_subscriptions b) sub of
                   Some _ \<Rightarrow> (Returned, log_line LogDebug (SubscriptionExists sub) b)
                 | None \<Rightarrow>
                     (case fold (subscribe_step sub) (dict_keys (m_patterns b)) (m_patterns b, []) of
                        (cache, matches) \<Rightarrow>
                          (Returned,
                           log_line LogDebug (AddedSubscription sub)
                             (b\<lparr>m_patterns := cache,
                                m_subscriptions :=
                                  dict_set sub_eq (m_subscriptions b) sub (sort matches)\<rparr>))))))"

text \<open>
  The loop of \<^verbatim>\<open>unsubscribe\<close> over the topics listed for the subscription.
  \<^verbatim>\<open>self._patterns[pattern]\<close> raises \<^verbatim>\<open>KeyError\<close> on a missing key and
  \<^verbatim>\<open>subs.remove(sub)\<close> raises \<^verbatim>\<open>ValueError\<close> when the subscription is not in
  the list; what the loop wrote before stays written.
\<close>

fun unsubscribe_loop :: "Subscription \<Rightarrow> string list \<Rightarrow> MessageBus \<Rightarrow> outcome \<times> MessageBus" where
  "unsubscribe_loop sub [] b = (Returned, b)"
| "unsubscribe_loop sub (pattern # rest) b =
     (case dict_get (=) (m_patterns b) pattern of
        None \<Rightarrow> (Raised KeyError, b)
      | Some subs \<Rightarrow>
          (case list_remove sub subs of
             None \<Rightarrow> (Raised ValueError, b)
           | Some subs' \<Rightarrow>
               unsubscribe_loop sub rest
                 (b\<lparr>m_patterns := dict_set (=) (m_patterns b) pattern (sorted_reverse subs')\<rparr>)))"

definition unsubscribe :: "MessageBus \<Rightarrow> string option \<Rightarrow> handler option \<Rightarrow> outcome \<times> MessageBus" where
  "unsubscribe b topic handler =
     (if \<not> valid_string topic then (Raised InvalidArgument, b)
      else if \<not> callable handler then (Raised InvalidArgument, b)
      else (case Subscription_init topic handler 0 of
              Inl err \<Rightarrow> (Raised err, b)
            | Inr sub \<Rightarrow>
                (case dict_get sub_eq (m_subscriptions b) sub of
                   None \<Rightarrow> (Returned, log_line LogWarning (SubscriptionNotFound sub) b)
                 | Some patterns \<Rightarrow>
                     (case unsubscribe_loop sub patterns b of
                        (Raised err, b1) \<Rightarrow> (Raised err, b1)
                      | (Returned, b1) \<Rightarrow>
                          (Returned,
                           log_line LogDebug (RemovedSubscription sub)
                             (b1\<lparr>m_subscriptions := dict_del sub_eq (m_subscriptions b1) sub\<rparr>))))))"

subsection \<open>Publish\<close>

text \<open>
  The second loop of \<^verbatim>\<open>_resolve_subscriptions\<close>: the topic is added to the list kept
  for the subscription, and the list is stored sorted.
\<close>

definition note_topic ::
  "string \<Rightarrow> Subscription \<Rightarrow> (Subscription \<times> string list) list \<Rightarrow> (Subscription \<times> string list) list" where
  "note_topic topic sub index =
     (let matches = (case dict_get sub_eq index sub of None \<Rightarrow> [] | Some ms \<Rightarrow> ms);
          matches' = (if topic \<in> set matches then matches else matches @ [topic])
      in dict_set sub_eq index sub (sort matches'))"

definition resolve_subscriptions :: "MessageBus \<Rightarrow> string \<Rightarrow> Subscription list \<times> MessageBus" where
  "resolve_subscriptions b topic =
     (let subs_list = filter (\<lambda>existing_sub. is_matching topic (sub_topic existing_sub))
                        (dict_keys (m_subscriptions b));
          subs_array = sorted_reverse subs_list
      in (subs_array,
          b\<lparr>m_patterns := dict_set (=) (m_patterns b) topic subs_array,
            m_subscriptions := fold (note_topic topic) subs_array (m_subscriptions b)\<rparr>))"

text \<open>
  The subscriptions of the index in the order in which \<^verbatim>\<open>_resolve_subscriptions\<close>
  iterates over them: the order of the dictionary, which is the order of registration.
\<close>

definition registered :: "MessageBus \<Rightarrow> Subscription list" where
  "registered b = dict_keys (m_subscriptions b)"

text \<open>The loop of \<^verbatim>\<open>publish_c\<close> over the resolved subscriptions.\<close>

fun dispatch :: "Subscription list \<Rightarrow> message \<Rightarrow> MessageBus \<Rightarrow> outcome \<times> MessageBus" where
  "dispatch [] m b = (Returned, b)"
| "dispatch (sub # subs) m b =
     (case call (sub_handler sub) (Msg m) b of
        (Raised err, b') \<Rightarrow> (Raised err, b')
      | (Returned, b') \<Rightarrow> dispatch subs m b')"

text \<open>
  The external publishing at the end of \<^verbatim>\<open>publish_c\<close>. The serializer is a
  collaborator outside the sources: it returns the bytes of the message, or raises
  (\<open>None\<close>).
\<close>

definition publish_external :: "MessageBus \<Rightarrow> string \<Rightarrow> message \<Rightarrow> outcome \<times> MessageBus" where
  "publish_external b topic m =
     (case m_serializer b of
        None \<Rightarrow> (Returned, b)
      | Some serialize \<Rightarrow>
          if m_has_backing b then
            if isinstance m (m_publishable_types b) then
              (case serialize m of
                 None \<Rightarrow> (Raised SerializationError, b)
               | Some payload_bytes \<Rightarrow>
                   (Returned, b\<lparr>trace := trace b @ [Emit topic payload_bytes]\<rparr>))
            else (Returned, b)
          else (Returned, b))"

text \<open>
  The first lines of \<^verbatim>\<open>publish_c\<close>: the cached entry of the topic, also an empty
  one, is used as it is; only a topic with no entry is resolved. The rest of
  \<^verbatim>\<open>publish_c\<close> follows; it checks its arguments with
  \<^verbatim>\<open>Condition.not_none\<close> only.
\<close>

definition resolved :: "MessageBus \<Rightarrow> string \<Rightarrow> Subscription list \<times> MessageBus" where
  "resolved b topic =
     (case dict_get (=) (m_patterns b) topic of
        Some subs \<Rightarrow> (subs, b)
      | None \<Rightarrow> resolve_subscriptions b topic)"

definition publish_c :: "MessageBus \<Rightarrow> string option \<Rightarrow> message option \<Rightarrow> outcome \<times> MessageBus" where
  "publish_c b topic msg =
     (case (topic, msg) of
        (Some tp, Some m) \<Rightarrow>
          (case resolved b tp of
             (subs, b1) \<Rightarrow>
               (case dispatch subs m b1 of
                  (Raised err, b2) \<Rightarrow> (Raised err, b2)
                | (Returned, b2) \<Rightarrow>
                    (case publish_external b2 tp m of
                       (Raised err, b3) \<Rightarrow> (Raised err, b3)
                     | (Returned, b3) \<Rightarrow> (Returned, b3\<lparr>pub_count := pub_count b3 + 1\<rparr>))))
      | _ \<Rightarrow> (Raised InvalidArgument, b))"

definition publish :: "MessageBus \<Rightarrow> string option \<Rightarrow> message option \<Rightarrow> outcome \<times> MessageBus" where
  "publish b topic msg = publish_c b topic msg"

subsection \<open>Introspection\<close>

definition endpoints :: "MessageBus \<Rightarrow> string list" where
  "endpoints b = dict_keys (m_endpoints b)"

definition topics :: "MessageBus \<Rightarrow> string list" where
  "topics b = sort (remdups (map sub_topic (dict_keys (m_subscriptions b))))"

definition subscriptions :: "MessageBus \<Rightarrow> string option \<Rightarrow> error + Subscription list" where
  "subscriptions b pattern =
     (let pattern = (case pattern of None \<Rightarrow> Some ''*'' | Some p \<Rightarrow> Some p) in
      if \<not> valid_string pattern then Inl InvalidArgument
      else (case pattern of
              Some p \<Rightarrow> Inr (filter (\<lambda>s. is_matching (sub_topic s) p) (dict_keys (m_subscriptions b)))
            | None \<Rightarrow> Inl InvalidArgument))"

definition has_subscribers :: "MessageBus \<Rightarrow> string option \<Rightarrow> error + bool" where
  "has_subscribers b pattern =
     (case subscriptions b pattern of
        Inl err \<Rightarrow> Inl err
      | Inr subs \<Rightarrow> Inr (length subs > 0))"

definition is_subscribed :: "MessageBus \<Rightarrow> string option \<Rightarrow> handler option \<Rightarrow> error + bool" where
  "is_subscribed b topic handler =
     (if \<not> valid_string topic then Inl InvalidArgument
      else if \<not> callable handler then Inl InvalidArgument
      else (case Subscription_init topic handler 0 of
              Inl err \<Rightarrow> Inl err
            | Inr sub \<Rightarrow> Inr (dict_get sub_eq (m_subscriptions b) sub \<noteq> None)))"

subsection \<open>Sequences of operations\<close>

text \<open>
  The operations that change the bus, with their arguments. A sequence of operations is run
  from left to right; an operation that raises leaves the bus as it was when the exception
  left it, and the caller goes on with the next one.
\<close>

datatype operation =
    Register "string option" "handler option"
  | Deregister "string option" "handler option"
  | Send "string option" "message option"
  | DoRequest "string option" "Request option"
  | DoResponse "Response option"
  | Subscribe "string option" "handler option" int
  | Unsubscribe "string option" "handler option"
  | Publish "string option" "message option"

fun apply_operation :: "operation \<Rightarrow> MessageBus \<Rightarrow> outcome \<times> MessageBus" where
  "apply_operation (Register endpoint handler) b = register b endpoint handler"
| "apply_operation (Deregister endpoint handler) b = deregister b endpoint handler"
| "apply_operation (Send endpoint msg) b = send b endpoint msg"
| "apply_operation (DoRequest endpoint req) b = request b endpoint req"
| "apply_operation (DoResponse resp) b = response b resp"
| "apply_operation (Subscribe topic handler priority) b = subscribe b topic handler priority"
| "apply_operation (Unsubscribe topic handler) b = unsubscribe b topic handler"
| "apply_operation (Publish topic msg) b = publish b topic msg"

definition run :: "operation list \<Rightarrow> MessageBus \<Rightarrow> MessageBus" where
  "run ops b = fold (\<lambda>op s. snd (apply_operation op s)) ops b"


section \<open>Concrete values used in the examples\<close>

definition fresh_bus :: MessageBus where
  "fresh_bus =
     \<lparr>m_endpoints = [], m_patterns = [], m_subscriptions = [], m_correlation_index = [],
      m_has_backing = False, m_serializer = None, m_publishable_types = [],
      sent_count = 0, req_count = 0, res_count = 0, pub_count = 0, trace = []\<rparr>"

definition svc_handler :: handler where
  "svc_handler = Handler 0 False"

definition h1 :: handler where
  "h1 = Handler 1 False"

definition h2 :: handler where
  "h2 = Handler 2 False"

definition h3 :: handler where
  "h3 = Handler 3 False"

definition failing_handler :: handler where
  "failing_handler = Handler 4 True"

definition quote :: message where
  "quote = Message [''Quote'', ''object''] 0"

definition svc_bus :: MessageBus where
  "svc_bus = run [Register (Some ''svc'') (Some svc_handler),
                  Register (Some ''bad'') (Some failing_handler)] fresh_bus"


definition pending_bus :: MessageBus where
  "pending_bus = fresh_bus\<lparr>m_correlation_index := [(7, failing_handler)]\<rparr>"

definition sink_config :: MessageBusConfig where
  "sink_config = \<lparr>database = Some ''redis'', types_filter = Some [''TypeA'']\<rparr>"

definition payload_serializer :: "message \<Rightarrow> bytes option" where
  "payload_serializer m = Some ''payload''"

definition sink_bus :: MessageBus where
  "sink_bus = fresh_bus\<lparr>m_has_backing := True, m_serializer := Some payload_serializer,
                         m_publishable_types := [''Base'', ''TypeB'']\<rparr>"

definition type_a_msg :: message where
  "type_a_msg = Message [''TypeA'', ''Base'', ''object''] 0"

definition type_b_msg :: message where
  "type_b_msg = Message [''TypeB'', ''object''] 0"

definition plain_type_a_msg :: message where
  "plain_type_a_msg = Message [''TypeA'', ''object''] 0"

definition subscribed_sink_bus :: MessageBus where
  "subscribed_sink_bus = run [Subscribe (Some ''T'') (Some h1) 0] sink_bus"

definition failing_sink_bus :: MessageBus where
  "failing_sink_bus = run [Subscribe (Some ''T'') (Some failing_handler) 0] sink_bus"

definition late_bus :: MessageBus where
  "late_bus = run [Publish (Some ''data.trade'') (Some quote),
                   Subscribe (Some ''data.*'') (Some h1) 0] fresh_bus"

definition early_bus :: MessageBus where
  "early_bus = run [Subscribe (Some ''data.*'') (Some h1) 0] fresh_bus"

definition priority_bus :: MessageBus where
  "priority_bus =
     run [Subscribe (Some ''T'') (Some h1) 10,
          Subscribe (Some ''T'') (Some h2) 5,
          Subscribe (Some ''T'') (Some h3) 10] fresh_bus"

definition late_priority_bus :: MessageBus where
  "late_priority_bus =
     run [Publish (Some ''data.trade'') (Some quote),
          Subscribe (Some ''data.trade'') (Some h2) 5,
          Subscribe (Some ''data.*'') (Some h1) 10] fresh_bus"

definition early_priority_bus :: MessageBus where
  "early_priority_bus =
     run [Subscribe (Some ''data.trade'') (Some h2) 5,
          Subscribe (Some ''data.*'') (Some h1) 10] fresh_bus"

definition validated_bus :: MessageBus where
  "validated_bus =
     run [Register (Some []) (Some h1),
          Register (Some ''svc'') (Some svc_handler),
          DoRequest (Some ''svc'') (Some (Request 7 h1))] fresh_bus"

section \<open>Notions used in the proofs\<close>

text \<open>
  The state of the table of \<^verbatim>\<open>is_matching\<close> when the loops are about to write the cell
  \<open>(i, j)\<close>: every cell before it, row by row, holds the glob semantics of the prefixes,
  and every other cell still holds False.
\<close>

definition filled :: "string \<Rightarrow> string \<Rightarrow> nat \<Rightarrow> nat \<Rightarrow> table \<Rightarrow> bool" where
  "filled topic pattern i j t =
     (\<forall>a b. t (a, b) =
        (a \<le> length topic \<and> b \<le> length pattern \<and> (a < i \<or> (a = i \<and> b < j)) \<and>
         glob_matches (take a topic) (take b pattern)))"


text \<open>
  The identity of a subscription (\<^verbatim>\<open>__eq__\<close> and \<^verbatim>\<open>__hash__\<close>): topic and
  handler.
\<close>

definition sub_key :: "Subscription \<Rightarrow> string \<times> handler" where
  "sub_key s = (sub_topic s, sub_handler s)"

text \<open>
  The invariant of the resolution cache that all operations keep. A cached entry is the
  stable descending sort of the registered subscriptions it contains (\<open>ordered\<close>), and
  every subscription in the entry of a topic has that topic in its list in the index
  (\<open>listed\<close>). The keys of both dictionaries are distinct.
\<close>

definition ordered :: "Subscription list \<Rightarrow> Subscription list \<Rightarrow> bool" where
  "ordered regs subs = (subs = sorted_reverse (filter (\<lambda>s. s \<in> set subs) regs))"

definition listed :: "(Subscription \<times> string list) list \<Rightarrow> string \<Rightarrow> Subscription list \<Rightarrow> bool" where
  "listed index T subs = (\<forall>s \<in> set subs. \<exists>ts. (s, ts) \<in> set index \<and> T \<in> set ts)"

definition cache_inv :: "MessageBus \<Rightarrow> bool" where
  "cache_inv b =
     (distinct (map fst (m_patterns b)) \<and>
      distinct (map sub_key (registered b)) \<and>
      (\<forall>T subs. dict_get (=) (m_patterns b) T = Some subs \<longrightarrow>
         ordered (registered b) subs \<and> listed (m_subscriptions b) T subs))"

text \<open>The cached entry of topic \<open>T\<close> contains the subscription \<open>k\<close>.\<close>

definition holds :: "MessageBus \<Rightarrow> string \<Rightarrow> Subscription \<Rightarrow> bool" where
  "holds b T k = (\<exists>subs. dict_get (=) (m_patterns b) T = Some subs \<and> k \<in> set subs)"

text \<open>
  No operation changes what the constructor set up for external publishing.
\<close>

definition same_configuration :: "MessageBus \<Rightarrow> MessageBus \<Rightarrow> bool" where
  "same_configuration b b' =
     (m_has_backing b' = m_has_backing b \<and> m_serializer b' = m_serializer b \<and>
      m_publishable_types b' = m_publishable_types b)"

section \<open>The matcher computes the glob semantics\<close>

lemma glob_matches_Nil_pattern: "glob_matches topic [] = (topic = [])"
  by (auto simp: glob_matches_def)

lemma glob_matches_snoc:
  "glob_matches topic (ps @ [p]) =
     (\<exists>u s. topic = u @ s \<and> glob_matches u ps \<and> token_matches p s)"
proof
  assume "glob_matches topic (ps @ [p])"
  then obtain segs where c: "concat segs = topic" and l: "list_all2 token_matches (ps @ [p]) segs"
    by (auto simp: glob_matches_def)
  from l obtain us vs where segs: "segs = us @ vs" and u: "list_all2 token_matches ps us"
    and v: "list_all2 token_matches [p] vs"
    by (auto simp: list_all2_append1)
  from v obtain s where vs: "vs = [s]" and s: "token_matches p s"
    by (auto simp: list_all2_Cons1)
  have "topic = concat us @ s" using c segs vs by simp
  moreover have "glob_matches (concat us) ps" using u by (auto simp: glob_matches_def)
  ultimately show "\<exists>u s. topic = u @ s \<and> glob_matches u ps \<and> token_matches p s"
    using s by blast
next
  assume "\<exists>u s. topic = u @ s \<and> glob_matches u ps \<and> token_matches p s"
  then obtain u s segs where t: "topic = u @ s" and c: "concat segs = u"
    and l: "list_all2 token_matches ps segs" and s: "token_matches p s"
    by (auto simp: glob_matches_def)
  have "concat (segs @ [s]) = topic" using t c by simp
  moreover have "list_all2 token_matches (ps @ [p]) (segs @ [s])"
    using l s by (simp add: list_all2_appendI)
  ultimately show "glob_matches topic (ps @ [p])"
    unfolding glob_matches_def by blast
qed

lemma glob_matches_empty_topic_snoc:
  "glob_matches [] (ps @ [p]) = (p = CHR ''*'' \<and> glob_matches [] ps)"
  by (auto simp: glob_matches_snoc token_matches_def)

lemma glob_matches_snoc_star:
  "glob_matches (ts @ [c]) (ps @ [CHR ''*'']) =
     (glob_matches ts (ps @ [CHR ''*'']) \<or> glob_matches (ts @ [c]) ps)"
proof -
  have "(\<exists>u s. ts @ [c] = u @ s \<and> glob_matches u ps) =
        ((\<exists>u s. ts = u @ s \<and> glob_matches u ps) \<or> glob_matches (ts @ [c]) ps)"
  proof
    assume "\<exists>u s. ts @ [c] = u @ s \<and> glob_matches u ps"
    then obtain u s where e: "ts @ [c] = u @ s" and g: "glob_matches u ps" by blast
    show "(\<exists>u s. ts = u @ s \<and> glob_matches u ps) \<or> glob_matches (ts @ [c]) ps"
    proof (cases s rule: rev_cases)
      case Nil
      then show ?thesis using e g by auto
    next
      case (snoc s' x)
      then have "ts = u @ s'" using e by simp
      then show ?thesis using g by blast
    qed
  next
    assume "(\<exists>u s. ts = u @ s \<and> glob_matches u ps) \<or> glob_matches (ts @ [c]) ps"
    then show "\<exists>u s. ts @ [c] = u @ s \<and> glob_matches u ps"
    proof
      assume "\<exists>u s. ts = u @ s \<and> glob_matches u ps"
      then obtain u s where "ts = u @ s" "glob_matches u ps" by blast
      then have "ts @ [c] = u @ (s @ [c]) \<and> glob_matches u ps" by simp
      then show ?thesis by blast
    next
      assume "glob_matches (ts @ [c]) ps"
      then have "ts @ [c] = (ts @ [c]) @ [] \<and> glob_matches (ts @ [c]) ps" by simp
      then show ?thesis by blast
    qed
  qed
  then show ?thesis by (simp add: glob_matches_snoc token_matches_def)
qed

lemma glob_matches_snoc_question:
  "glob_matches (ts @ [c]) (ps @ [CHR ''?'']) = glob_matches ts ps"
proof -
  have "(\<exists>u s. ts @ [c] = u @ s \<and> glob_matches u ps \<and> length s = 1) = glob_matches ts ps"
  proof
    assume "\<exists>u s. ts @ [c] = u @ s \<and> glob_matches u ps \<and> length s = 1"
    then obtain u s where e: "ts @ [c] = u @ s" and g: "glob_matches u ps" and l: "length s = 1"
      by blast
    from l obtain x where "s = [x]" by (cases s) auto
    then show "glob_matches ts ps" using e g by simp
  next
    assume "glob_matches ts ps"
    then have "ts @ [c] = ts @ [c] \<and> glob_matches ts ps \<and> length [c] = 1" by simp
    then show "\<exists>u s. ts @ [c] = u @ s \<and> glob_matches u ps \<and> length s = 1" by blast
  qed
  then show ?thesis
    by (simp add: glob_matches_snoc token_matches_def)
qed

lemma glob_matches_snoc_literal:
  assumes "p \<noteq> CHR ''*''" and "p \<noteq> CHR ''?''"
  shows "glob_matches (ts @ [c]) (ps @ [p]) = (c = p \<and> glob_matches ts ps)"
proof -
  have "(\<exists>u. ts @ [c] = u @ [p] \<and> glob_matches u ps) = (c = p \<and> glob_matches ts ps)"
    by auto
  then show ?thesis using assms
    by (simp add: glob_matches_snoc token_matches_def)
qed


lemma fold_upt_invariant:
  assumes "P a t"
    and "\<And>k s. a \<le> k \<Longrightarrow> k < b \<Longrightarrow> P k s \<Longrightarrow> P (Suc k) (f k s)"
    and "a \<le> b"
  shows "P b (fold f [a..<b] t)"
  using assms(3,2)
proof (induction b)
  case 0
  then show ?case using assms(1) by simp
next
  case (Suc b)
  show ?case
  proof (cases "a = Suc b")
    case True
    then show ?thesis using assms(1) by simp
  next
    case False
    then have le: "a \<le> b" using Suc.prems(1) by simp
    have "P b (fold f [a..<b] t)"
      using Suc.IH [OF le] Suc.prems(2) by simp
    then have "P (Suc b) (f b (fold f [a..<b] t))"
      using Suc.prems(2) [of b] le by simp
    then show ?thesis using le by simp
  qed
qed

lemma take_as_snoc: "0 < j \<Longrightarrow> j \<le> length xs \<Longrightarrow> take j xs = take (j - 1) xs @ [xs ! (j - 1)]"
  by (cases j) (simp_all add: take_Suc_conv_app_nth)

lemma filled_initial:
  "filled topic pattern 0 1 ((\<lambda>_. False)((0, 0) := True))"
  by (auto simp: filled_def glob_matches_Nil_pattern)

lemma filled_empty_case_step:
  assumes "filled topic pattern 0 j t" and "1 \<le> j" and "j < length pattern + 1"
  shows "filled topic pattern 0 (Suc j) (empty_case_step pattern j t)"
proof -
  have tk: "take j pattern = take (j - 1) pattern @ [pattern ! (j - 1)]"
    using assms(2,3) by (simp add: take_as_snoc)
  have g: "glob_matches [] (take j pattern) =
             (pattern ! (j - 1) = CHR ''*'' \<and> glob_matches [] (take (j - 1) pattern))"
    unfolding tk by (rule glob_matches_empty_topic_snoc)
  have "j - 1 \<le> length pattern" and "j - 1 < j"
    using assms(2,3) by simp_all
  then have prev: "t (0, j - 1) = glob_matches [] (take (j - 1) pattern)"
    using assms(1) by (simp add: filled_def)
  have cur: "t (0, j) = False"
    using assms by (simp add: filled_def)
  show ?thesis
    unfolding filled_def
  proof (intro allI)
    fix a b
    show "empty_case_step pattern j t (a, b) =
            (a \<le> length topic \<and> b \<le> length pattern \<and> (a < 0 \<or> (a = 0 \<and> b < Suc j)) \<and>
             glob_matches (take a topic) (take b pattern))"
    proof (cases "(a, b) = (0, j)")
      case True
      then show ?thesis using g prev cur assms(2,3)
        by (auto simp: empty_case_step_def)
    next
      case False
      then have "empty_case_step pattern j t (a, b) = t (a, b)"
        by (auto simp: empty_case_step_def)
      moreover have "(a = 0 \<and> b < Suc j) = (a = 0 \<and> b < j)"
        using False by auto
      ultimately show ?thesis using assms(1) by (simp add: filled_def)
    qed
  qed
qed

lemma filled_next_row:
  assumes "filled topic pattern i (length pattern + 1) t"
  shows "filled topic pattern (Suc i) 1 t"
  unfolding filled_def
proof (intro allI)
  fix a b
  have t: "t (a, b) =
        (a \<le> length topic \<and> b \<le> length pattern \<and> (a < i \<or> (a = i \<and> b < length pattern + 1)) \<and>
         glob_matches (take a topic) (take b pattern))"
    using assms by (simp add: filled_def)
  show "t (a, b) =
        (a \<le> length topic \<and> b \<le> length pattern \<and> (a < Suc i \<or> (a = Suc i \<and> b < 1)) \<and>
         glob_matches (take a topic) (take b pattern))"
  proof (cases "a = Suc i \<and> b = 0")
    case True
    then show ?thesis using t by (auto simp: glob_matches_Nil_pattern)
  next
    case False
    then show ?thesis using t by auto
  qed
qed

lemma filled_cell_step:
  assumes "filled topic pattern i j t" and "1 \<le> i" and "i \<le> length topic"
    and "1 \<le> j" and "j < length pattern + 1"
  shows "filled topic pattern i (Suc j) (cell_step topic pattern i j t)"
proof -
  let ?p = "pattern ! (j - 1)" and ?c = "topic ! (i - 1)"
  have tkp: "take j pattern = take (j - 1) pattern @ [?p]"
    using assms(4,5) by (simp add: take_as_snoc)
  have tkt: "take i topic = take (i - 1) topic @ [?c]"
    using assms(2,3) by (simp add: take_as_snoc)
  have up: "t (i - 1, j) = glob_matches (take (i - 1) topic) (take j pattern)"
    using assms by (auto simp: filled_def)
  have left: "t (i, j - 1) = glob_matches (take i topic) (take (j - 1) pattern)"
    using assms by (auto simp: filled_def)
  have diag: "t (i - 1, j - 1) = glob_matches (take (i - 1) topic) (take (j - 1) pattern)"
    using assms by (auto simp: filled_def)
  have cur: "t (i, j) = False"
    using assms by (simp add: filled_def)
  have new: "cell_step topic pattern i j t (i, j) = glob_matches (take i topic) (take j pattern)"
  proof (cases "?p = CHR ''*''")
    case True
    have "glob_matches (take i topic) (take j pattern) =
            (glob_matches (take (i - 1) topic) (take j pattern) \<or>
             glob_matches (take i topic) (take (j - 1) pattern))"
      using glob_matches_snoc_star [of "take (i - 1) topic" ?c "take (j - 1) pattern"]
        tkp tkt True by simp
    then show ?thesis using True up left by (simp add: cell_step_def)
  next
    case star: False
    show ?thesis
    proof (cases "?p = CHR ''?''")
      case True
      have "glob_matches (take i topic) (take j pattern) =
              glob_matches (take (i - 1) topic) (take (j - 1) pattern)"
        using glob_matches_snoc_question [of "take (i - 1) topic" ?c "take (j - 1) pattern"]
          tkp tkt True by simp
      then show ?thesis using True diag by (simp add: cell_step_def)
    next
      case False
      have "glob_matches (take i topic) (take j pattern) =
              (?c = ?p \<and> glob_matches (take (i - 1) topic) (take (j - 1) pattern))"
        using glob_matches_snoc_literal [OF star False, of "take (i - 1) topic" ?c "take (j - 1) pattern"]
          tkp tkt by simp
      then show ?thesis using star False diag cur by (simp add: cell_step_def)
    qed
  qed
  have other: "\<And>a b. (a, b) \<noteq> (i, j) \<Longrightarrow> cell_step topic pattern i j t (a, b) = t (a, b)"
    by (auto simp: cell_step_def)
  show ?thesis
    unfolding filled_def
  proof (intro allI)
    fix a b
    show "cell_step topic pattern i j t (a, b) =
            (a \<le> length topic \<and> b \<le> length pattern \<and> (a < i \<or> (a = i \<and> b < Suc j)) \<and>
             glob_matches (take a topic) (take b pattern))"
    proof (cases "(a, b) = (i, j)")
      case True
      then show ?thesis using new assms(3,5) by auto
    next
      case False
      moreover have "(a = i \<and> b < Suc j) = (a = i \<and> b < j)"
        using False by auto
      ultimately show ?thesis using other [OF False] assms(1) by (simp add: filled_def)
    qed
  qed
qed

lemma filled_row_step:
  assumes "filled topic pattern i 1 t" and "1 \<le> i" and "i \<le> length topic"
  shows "filled topic pattern (Suc i) 1 (row_step topic pattern i t)"
proof -
  have "filled topic pattern i (length pattern + 1)
          (fold (cell_step topic pattern i) [1..<length pattern + 1] t)"
  proof (rule fold_upt_invariant [where P = "filled topic pattern i"])
    show "filled topic pattern i 1 t" by (rule assms(1))
  next
    fix k s
    assume "1 \<le> k" "k < length pattern + 1" "filled topic pattern i k s"
    then show "filled topic pattern i (Suc k) (cell_step topic pattern i k s)"
      using assms(2,3) by (intro filled_cell_step)
  qed simp
  then show ?thesis
    unfolding row_step_def by (rule filled_next_row)
qed

lemma is_matching_glob: "is_matching topic pattern = glob_matches topic pattern"
proof -
  let ?n = "length topic" and ?m = "length pattern"
  let ?t0 = "(\<lambda>_. False)((0, 0) := True) :: table"
  let ?t1 = "fold (empty_case_step pattern) [1..<?m + 1] ?t0"
  let ?t2 = "fold (row_step topic pattern) [1..<?n + 1] ?t1"
  have "filled topic pattern 0 (?m + 1) ?t1"
  proof (rule fold_upt_invariant [where P = "filled topic pattern 0"])
    show "filled topic pattern 0 1 ?t0" by (rule filled_initial)
  next
    fix k s
    assume "1 \<le> k" "k < ?m + 1" "filled topic pattern 0 k s"
    then show "filled topic pattern 0 (Suc k) (empty_case_step pattern k s)"
      by (intro filled_empty_case_step)
  qed simp
  then have r1: "filled topic pattern 1 1 ?t1"
    using filled_next_row [of topic pattern 0] by simp
  have "filled topic pattern (?n + 1) 1 ?t2"
  proof (rule fold_upt_invariant [where P = "\<lambda>i. filled topic pattern i 1"])
    show "filled topic pattern 1 1 ?t1" by (rule r1)
  next
    fix k s
    assume "1 \<le> k" "k < ?n + 1" "filled topic pattern k 1 s"
    then show "filled topic pattern (Suc k) 1 (row_step topic pattern k s)"
      by (intro filled_row_step) simp_all
  qed simp
  then have "?t2 (?n, ?m) = glob_matches topic pattern"
    by (simp add: filled_def)
  then show ?thesis
    by (simp add: is_matching_def Let_def)
qed


lemma is_matching_empty_topic: "is_matching [] p = list_all (\<lambda>c. c = CHR ''*'') p"
  unfolding is_matching_glob
  by (induction p rule: rev_induct) (auto simp: glob_matches_Nil_pattern glob_matches_empty_topic_snoc)

lemma is_matching_vectors_true:
  "is_matching [] []" "is_matching [] ''*''" "is_matching [] ''**''"
  "is_matching ''comp'' ''comp*''" "is_matching ''complete'' ''comp*''"
  "is_matching ''computer'' ''comp*''" "is_matching ''camp'' ''c?mp''"
  "is_matching ''comp'' ''c?mp''" "is_matching ''coop'' ''c??p''"
  by code_simp+

lemma is_matching_vectors_false:
  "\<not> is_matching ''a'' []" "\<not> is_matching ''cmp'' ''c?mp''"
  by code_simp+

text \<open>
  C2. For every topic and pattern, \<open>is_matching\<close> is true exactly when the pattern matches
  the topic under the glob semantics: a question mark stands for exactly one character, an
  asterisk for zero or more characters, any other character for itself. In particular the
  empty topic is matched exactly by the patterns made of asterisks only, the empty pattern
  does not match \<open>a\<close>, and the test vectors of the specification hold.
\<close>

theorem is_matching_is_glob:
  "(\<forall>topic pattern. is_matching topic pattern = glob_matches topic pattern) \<and>
   (\<forall>p. is_matching [] p = list_all (\<lambda>c. c = CHR ''*'') p) \<and>
   \<not> is_matching ''a'' [] \<and>
   is_matching [] [] \<and> is_matching [] ''*'' \<and> is_matching [] ''**'' \<and>
   is_matching ''comp'' ''comp*'' \<and> is_matching ''complete'' ''comp*'' \<and>
   is_matching ''computer'' ''comp*'' \<and>
   is_matching ''camp'' ''c?mp'' \<and> is_matching ''comp'' ''c?mp'' \<and>
   is_matching ''coop'' ''c??p'' \<and>
   \<not> is_matching ''cmp'' ''c?mp''"
  using is_matching_glob is_matching_empty_topic is_matching_vectors_true
    is_matching_vectors_false
  by blast


section \<open>Dictionaries, traces and the fresh bus\<close>

lemma dict_get_set_same: "dict_get (=) (dict_set (=) d k v) k = Some v"
  by (induction d) auto

lemma dict_get_set_other: "k' \<noteq> k \<Longrightarrow> dict_get (=) (dict_set (=) d k v) k' = dict_get (=) d k'"
  by (induction d) auto

lemma dict_get_del_same: "dict_get (=) (dict_del (=) d k) k = None"
  by (induction d) (auto simp: dict_del_def)

lemma dict_get_del_other: "k' \<noteq> k \<Longrightarrow> dict_get (=) (dict_del (=) d k) k' = dict_get (=) d k'"
  by (induction d) (auto simp: dict_del_def)

lemma calls_append: "calls (xs @ ys) = calls xs @ calls ys"
  by (induction xs rule: calls.induct) simp_all

lemma emitted_append: "emitted (xs @ ys) = emitted xs @ emitted ys"
  by (induction xs rule: emitted.induct) simp_all

lemma fresh_bus_init: "MessageBus_init None None None [] = Inr (fresh_bus, default_config)"
  by (simp add: MessageBus_init_def fresh_bus_def default_config_def valid_string_def)

lemma MessageBus_init_fresh:
  assumes "MessageBus_init name ser cfg ext = Inr (b0, cfg')"
  shows "m_endpoints b0 = []" "m_patterns b0 = []" "m_subscriptions b0 = []"
    "m_correlation_index b0 = []" "sent_count b0 = 0" "req_count b0 = 0" "res_count b0 = 0"
    "pub_count b0 = 0" "trace b0 = []"
  using assms by (auto simp: MessageBus_init_def Let_def split: if_splits)

lemma svc_bus_fields:
  "m_endpoints svc_bus = [(''svc'', svc_handler), (''bad'', failing_handler)]"
  "m_correlation_index svc_bus = []"
  "sent_count svc_bus = 0" "req_count svc_bus = 0" "res_count svc_bus = 0"
  "trace svc_bus = [Log LogDebug (AddedEndpoint ''svc''), Log LogDebug (AddedEndpoint ''bad'')]"
  by (simp_all add: svc_bus_def run_def register_def fresh_bus_def valid_string_def callable_def
      log_line_def)


section \<open>Dispatch and resolution\<close>

lemma dispatch_all_return:
  "list_all (\<lambda>s. \<not> raises (sub_handler s)) subs \<Longrightarrow>
   dispatch subs m b =
     (Returned, b\<lparr>trace := trace b @ map (\<lambda>s. Call (sub_handler s) (Msg m)) subs\<rparr>)"
  by (induction subs arbitrary: b) (simp_all add: call_def)

lemma dispatch_prefix:
  "\<exists>n. n \<le> length subs \<and> (fst (dispatch subs m b) = Returned \<longrightarrow> n = length subs) \<and>
       snd (dispatch subs m b) =
         b\<lparr>trace := trace b @ map (\<lambda>s. Call (sub_handler s) (Msg m)) (take n subs)\<rparr>"
proof (induction subs arbitrary: b)
  case Nil
  then show ?case by simp
next
  case (Cons s subs)
  show ?case
  proof (cases "raises (sub_handler s)")
    case True
    then have "snd (dispatch (s # subs) m b) =
        b\<lparr>trace := trace b @ map (\<lambda>s. Call (sub_handler s) (Msg m)) (take 1 (s # subs))\<rparr>"
      and "fst (dispatch (s # subs) m b) \<noteq> Returned"
      by (simp_all add: call_def)
    then show ?thesis
      by (intro exI [of _ 1]) simp
  next
    case False
    let ?b = "b\<lparr>trace := trace b @ [Call (sub_handler s) (Msg m)]\<rparr>"
    from Cons.IH [of ?b] obtain n where n: "n \<le> length subs"
      "fst (dispatch subs m ?b) = Returned \<longrightarrow> n = length subs"
      "snd (dispatch subs m ?b) =
         ?b\<lparr>trace := trace ?b @ map (\<lambda>s. Call (sub_handler s) (Msg m)) (take n subs)\<rparr>"
      by blast
    have d: "dispatch (s # subs) m b = dispatch subs m ?b"
      using False by (simp add: call_def)
    show ?thesis
      unfolding d using n by (intro exI [of _ "Suc n"]) simp
  qed
qed

lemma note_topic_fold_fields:
  "resolve_subscriptions b topic = (subs, b1) \<Longrightarrow>
   trace b1 = trace b \<and> m_has_backing b1 = m_has_backing b \<and> m_serializer b1 = m_serializer b \<and>
   m_publishable_types b1 = m_publishable_types b \<and> pub_count b1 = pub_count b \<and>
   m_endpoints b1 = m_endpoints b \<and> m_correlation_index b1 = m_correlation_index b \<and>
   sent_count b1 = sent_count b \<and> req_count b1 = req_count b \<and> res_count b1 = res_count b"
  by (auto simp: resolve_subscriptions_def Let_def)

lemma resolved_fields:
  "resolved b topic = (subs, b1) \<Longrightarrow>
   trace b1 = trace b \<and> m_has_backing b1 = m_has_backing b \<and> m_serializer b1 = m_serializer b \<and>
   m_publishable_types b1 = m_publishable_types b \<and> pub_count b1 = pub_count b \<and>
   m_endpoints b1 = m_endpoints b \<and> m_correlation_index b1 = m_correlation_index b \<and>
   sent_count b1 = sent_count b \<and> req_count b1 = req_count b \<and> res_count b1 = res_count b"
  by (auto simp: resolved_def dest: note_topic_fold_fields split: option.splits)

section \<open>Send\<close>

text \<open>
  C8. A \<open>send\<close> to an endpoint with no registered handler returns without raising, calls no
  handler and leaves \<open>sent_count\<close> (and everything but the log) as it was. Otherwise the
  registered handler is called with the message; when it returns, \<open>sent_count\<close> has grown
  by exactly one. When the handler raises, its exception leaves \<open>send\<close> and the counter
  keeps its value.
\<close>

theorem send_dispatch:
  "(dict_get (=) (m_endpoints b) endpoint = None \<longrightarrow>
      send b (Some endpoint) (Some m) =
        (Returned, b\<lparr>trace := trace b @ [Log LogError (CannotSend endpoint)]\<rparr>)) \<and>
   (\<forall>h. dict_get (=) (m_endpoints b) endpoint = Some h \<and> \<not> raises h \<longrightarrow>
      send b (Some endpoint) (Some m) =
        (Returned, b\<lparr>trace := trace b @ [Call h (Msg m)], sent_count := sent_count b + 1\<rparr>)) \<and>
   (\<forall>h. dict_get (=) (m_endpoints b) endpoint = Some h \<and> raises h \<longrightarrow>
      send b (Some endpoint) (Some m) =
        (Raised (HandlerException h), b\<lparr>trace := trace b @ [Call h (Msg m)]\<rparr>))"
  by (simp add: send_def call_def log_line_def)

theorem send_dispatch_witness:
  "send svc_bus (Some ''nope'') (Some quote) =
     (Returned, svc_bus\<lparr>trace := trace svc_bus @ [Log LogError (CannotSend ''nope'')]\<rparr>) \<and>
   send svc_bus (Some ''svc'') (Some quote) =
     (Returned, svc_bus\<lparr>trace := trace svc_bus @ [Call svc_handler (Msg quote)],
                         sent_count := 1\<rparr>) \<and>
   send svc_bus (Some ''bad'') (Some quote) =
     (Raised (HandlerException failing_handler),
      svc_bus\<lparr>trace := trace svc_bus @ [Call failing_handler (Msg quote)]\<rparr>)"
proof -
  have none: "dict_get (=) (m_endpoints svc_bus) ''nope'' = None"
    by (simp add: svc_bus_fields)
  have svc: "dict_get (=) (m_endpoints svc_bus) ''svc'' = Some svc_handler \<and> \<not> raises svc_handler"
    by (simp add: svc_bus_fields svc_handler_def)
  have bad: "dict_get (=) (m_endpoints svc_bus) ''bad'' = Some failing_handler \<and> raises failing_handler"
    by (simp add: svc_bus_fields failing_handler_def)
  show ?thesis
    using send_dispatch [of svc_bus "''nope''" quote] send_dispatch [of svc_bus "''svc''" quote]
      send_dispatch [of svc_bus "''bad''" quote] none svc bad
    by (simp add: svc_bus_fields)
qed


section \<open>Request and response\<close>

text \<open>
  Only a response removes a correlation entry, and only the entry of its own correlation
  identifier.
\<close>

lemma unsubscribe_loop_fields:
  "m_subscriptions (snd (unsubscribe_loop sub ts b)) = m_subscriptions b \<and>
   m_correlation_index (snd (unsubscribe_loop sub ts b)) = m_correlation_index b"
proof (induction ts arbitrary: b)
  case Nil
  then show ?case by simp
next
  case (Cons t ts)
  show ?case
  proof (cases "dict_get (=) (m_patterns b) t")
    case None
    then show ?thesis by simp
  next
    case (Some subs)
    show ?thesis
    proof (cases "list_remove sub subs")
      case None
      then show ?thesis using Some by simp
    next
      case rem: (Some subs')
      let ?b = "b\<lparr>m_patterns := dict_set (=) (m_patterns b) t (sorted_reverse subs')\<rparr>"
      show ?thesis using Cons.IH [of ?b] Some rem by simp
    qed
  qed
qed

lemma subscribe_correlation_index:
  "m_correlation_index (snd (subscribe b topic handler priority)) = m_correlation_index b"
  by (auto simp: subscribe_def log_line_def split: option.splits sum.splits prod.splits)

lemma unsubscribe_correlation_index:
  "m_correlation_index (snd (unsubscribe b topic handler)) = m_correlation_index b"
proof -
  have "\<And>sub ts out b1. unsubscribe_loop sub ts b = (out, b1) \<Longrightarrow>
          m_correlation_index b1 = m_correlation_index b"
    using unsubscribe_loop_fields by (metis snd_conv)
  then show ?thesis
    by (auto simp: unsubscribe_def log_line_def
        split: option.splits sum.splits prod.splits outcome.splits)
qed

lemma publish_correlation_index:
  "m_correlation_index (snd (publish b topic msg)) = m_correlation_index b"
proof (cases "\<exists>tp m. topic = Some tp \<and> msg = Some m")
  case False
  then show ?thesis
    by (cases topic; cases msg) (simp_all add: publish_def publish_c_def)
next
  case True
  then obtain tp m where tm: "topic = Some tp" "msg = Some m" by blast
  obtain subs b1 where r: "resolved b tp = (subs, b1)" by (cases "resolved b tp")
  obtain out b2 where d: "dispatch subs m b1 = (out, b2)" by (cases "dispatch subs m b1")
  obtain n where "snd (dispatch subs m b1) =
      b1\<lparr>trace := trace b1 @ map (\<lambda>s. Call (sub_handler s) (Msg m)) (take n subs)\<rparr>"
    using dispatch_prefix [of subs m b1] by blast
  then have "m_correlation_index b2 = m_correlation_index b"
    using d resolved_fields [OF r] by simp
  then show ?thesis
    using tm r d
    by (auto simp: publish_def publish_c_def publish_external_def
        split: outcome.splits option.splits prod.splits if_splits)
qed

lemma apply_operation_pending:
  assumes "dict_get (=) (m_correlation_index b) x = Some cb"
    and "\<And>resp. op = DoResponse (Some resp) \<Longrightarrow> correlation_id resp \<noteq> x"
  shows "dict_get (=) (m_correlation_index (snd (apply_operation op b))) x = Some cb"
proof (cases op)
  case (Register e h)
  then show ?thesis using assms(1)
    by (auto simp: register_def log_line_def split: option.splits)
next
  case (Deregister e h)
  then show ?thesis using assms(1)
    by (auto simp: deregister_def log_line_def split: option.splits)
next
  case (Send e m)
  then show ?thesis using assms(1)
    by (auto simp: send_def call_def log_line_def split: option.splits)
next
  case (DoRequest e r)
  show ?thesis
  proof (cases "\<exists>e' r'. e = Some e' \<and> r = Some r'")
    case False
    then show ?thesis using assms(1) DoRequest
      by (cases e; cases r) (simp_all add: request_def)
  next
    case True
    then obtain e' r' where er: "e = Some e'" "r = Some r'" by blast
    show ?thesis
    proof (cases "request_id r' = x")
      case True
      then show ?thesis using assms(1) DoRequest er
        by (simp add: request_def log_line_def)
    next
      case False
      then show ?thesis using assms(1) DoRequest er
        by (auto simp: request_def call_def log_line_def Let_def dict_get_set_other
            split: option.splits)
    qed
  qed
next
  case (DoResponse r)
  show ?thesis
  proof (cases r)
    case None
    then show ?thesis using assms(1) DoResponse by (simp add: response_def)
  next
    case (Some resp)
    then have "correlation_id resp \<noteq> x" using assms(2) DoResponse by simp
    then show ?thesis using assms(1) DoResponse Some
      by (auto simp: response_def call_def log_line_def Let_def dict_get_del_other
          split: option.splits)
  qed
next
  case (Subscribe tp h p)
  then show ?thesis using assms(1) by (simp add: subscribe_correlation_index)
next
  case (Unsubscribe tp h)
  then show ?thesis using assms(1) by (simp add: unsubscribe_correlation_index)
next
  case (Publish tp m)
  then show ?thesis using assms(1) by (simp add: publish_correlation_index)
qed

lemma run_pending:
  assumes "dict_get (=) (m_correlation_index b) x = Some cb"
    and "\<And>resp. DoResponse (Some resp) \<in> set ops \<Longrightarrow> correlation_id resp \<noteq> x"
  shows "dict_get (=) (m_correlation_index (run ops b)) x = Some cb"
  using assms
proof (induction ops arbitrary: b)
  case Nil
  then show ?case by (simp add: run_def)
next
  case (Cons op ops)
  have step: "dict_get (=) (m_correlation_index (snd (apply_operation op b))) x = Some cb"
    using Cons.prems by (intro apply_operation_pending) auto
  have "run (op # ops) b = run ops (snd (apply_operation op b))"
    by (simp add: run_def)
  then show ?case
    using Cons.IH [OF step] Cons.prems(2) by simp
qed

text \<open>
  C7. A request whose identifier is not pending, sent to an endpoint with no registered
  handler, returns without raising and without a change of \<open>req_count\<close>; no handler is
  called; the correlation entry from the identifier to the callback has been inserted all
  the same, so the request is pending afterwards. It stays pending through every sequence
  of operations that contains no response with that correlation identifier, and a response
  with that correlation identifier removes it.
\<close>

theorem request_unknown_endpoint:
  assumes "dict_get (=) (m_correlation_index b) (request_id r) = None"
    and "dict_get (=) (m_endpoints b) endpoint = None"
  shows "\<exists>b'. request b (Some endpoint) (Some r) = (Returned, b') \<and>
           req_count b' = req_count b \<and>
           calls (trace b') = calls (trace b) \<and>
           dict_get (=) (m_correlation_index b') (request_id r) = Some (callback r) \<and>
           is_pending_request b' (Some (request_id r)) = Inr True \<and>
           (\<forall>ops. (\<forall>resp. DoResponse (Some resp) \<in> set ops \<longrightarrow> correlation_id resp \<noteq> request_id r) \<longrightarrow>
              is_pending_request (run ops b') (Some (request_id r)) = Inr True) \<and>
           (\<forall>resp. correlation_id resp = request_id r \<longrightarrow>
              is_pending_request (snd (response b' (Some resp))) (Some (request_id r)) = Inr False)"
proof -
  let ?b' = "b\<lparr>m_correlation_index :=
                  dict_set (=) (m_correlation_index b) (request_id r) (callback r),
                trace := trace b @ [Log LogError (CannotHandleRequest endpoint)]\<rparr>"
  have req: "request b (Some endpoint) (Some r) = (Returned, ?b')"
    using assms by (simp add: request_def log_line_def)
  have live: "dict_get (=) (m_correlation_index ?b') (request_id r) = Some (callback r)"
    by (simp add: dict_get_set_same)
  have stays: "is_pending_request (run ops ?b') (Some (request_id r)) = Inr True"
    if "\<forall>resp. DoResponse (Some resp) \<in> set ops \<longrightarrow> correlation_id resp \<noteq> request_id r" for ops
    using run_pending [OF live, of ops] that by (simp add: is_pending_request_def)
  have freed: "is_pending_request (snd (response ?b' (Some resp))) (Some (request_id r)) = Inr False"
    if "correlation_id resp = request_id r" for resp
    using that live
    by (simp add: response_def call_def is_pending_request_def dict_get_del_same)
  have "req_count ?b' = req_count b \<and> calls (trace ?b') = calls (trace b) \<and>
        is_pending_request ?b' (Some (request_id r)) = Inr True"
    using live by (simp add: is_pending_request_def calls_append)
  then show ?thesis
    using req live stays freed by blast
qed

theorem request_unknown_endpoint_witness:
  "dict_get (=) (m_correlation_index fresh_bus) (request_id (Request 7 h1)) = None \<and>
   dict_get (=) (m_endpoints fresh_bus) ''nope'' = None \<and>
   (\<exists>b'. request fresh_bus (Some ''nope'') (Some (Request 7 h1)) = (Returned, b') \<and>
      req_count b' = req_count fresh_bus \<and>
      calls (trace b') = calls (trace fresh_bus) \<and>
      dict_get (=) (m_correlation_index b') (request_id (Request 7 h1)) = Some (callback (Request 7 h1)) \<and>
      is_pending_request b' (Some (request_id (Request 7 h1))) = Inr True \<and>
      is_pending_request
        (run [DoResponse (Some (Response 8 0)), Publish (Some ''T'') (Some quote)] b')
        (Some (request_id (Request 7 h1))) = Inr True \<and>
      correlation_id (Response 7 0) = request_id (Request 7 h1) \<and>
      is_pending_request (snd (response b' (Some (Response 7 0))))
        (Some (request_id (Request 7 h1))) = Inr False)"
proof -
  have a: "dict_get (=) (m_correlation_index fresh_bus) (request_id (Request 7 h1)) = None"
    by (simp add: fresh_bus_def)
  have b: "dict_get (=) (m_endpoints fresh_bus) ''nope'' = None"
    by (simp add: fresh_bus_def)
  from request_unknown_endpoint [OF a b]
  obtain b' where b':
    "request fresh_bus (Some ''nope'') (Some (Request 7 h1)) = (Returned, b')"
    "req_count b' = req_count fresh_bus"
    "calls (trace b') = calls (trace fresh_bus)"
    "dict_get (=) (m_correlation_index b') (request_id (Request 7 h1)) = Some (callback (Request 7 h1))"
    "is_pending_request b' (Some (request_id (Request 7 h1))) = Inr True"
    "\<forall>ops. (\<forall>resp. DoResponse (Some resp) \<in> set ops \<longrightarrow>
              correlation_id resp \<noteq> request_id (Request 7 h1)) \<longrightarrow>
       is_pending_request (run ops b') (Some (request_id (Request 7 h1))) = Inr True"
    "\<forall>resp. correlation_id resp = request_id (Request 7 h1) \<longrightarrow>
       is_pending_request (snd (response b' (Some resp))) (Some (request_id (Request 7 h1))) = Inr False"
    by blast
  have other: "\<forall>resp. DoResponse (Some resp) \<in>
       set [DoResponse (Some (Response 8 0)), Publish (Some ''T'') (Some quote)] \<longrightarrow>
       correlation_id resp \<noteq> request_id (Request 7 h1)"
    by auto
  have stays: "is_pending_request
        (run [DoResponse (Some (Response 8 0)), Publish (Some ''T'') (Some quote)] b')
        (Some (request_id (Request 7 h1))) = Inr True"
    using b'(6) other by blast
  have same: "correlation_id (Response 7 0) = request_id (Request 7 h1)"
    by simp
  have freed: "is_pending_request (snd (response b' (Some (Response 7 0))))
        (Some (request_id (Request 7 h1))) = Inr False"
    using b'(7) same by blast
  show ?thesis
    using a b b'(1-5) stays same freed by blast
qed

text \<open>
  C4. On a fresh bus with a handler registered at the endpoint \<open>svc\<close> (handler and
  callback returning normally): after the request the identifier is pending; after the
  response with that correlation identifier it is not, the callback of the request has been
  called exactly once with the response, and \<open>req_count\<close> and \<open>res_count\<close> are both 1.
\<close>

theorem request_response_round_trip:
  assumes "MessageBus_init name serializer config types = Inr (b0, config')"
    and "register b0 (Some ''svc'') (Some h) = (Returned, b1)"
    and "\<not> raises h" and "\<not> raises (callback r)"
    and "correlation_id resp = request_id r"
  shows "\<exists>b2 b3.
           request b1 (Some ''svc'') (Some r) = (Returned, b2) \<and>
           is_pending_request b2 (Some (request_id r)) = Inr True \<and>
           response b2 (Some resp) = (Returned, b3) \<and>
           is_pending_request b3 (Some (request_id r)) = Inr False \<and>
           calls (trace b3) = [(h, Req r), (callback r, Resp resp)] \<and>
           count_list (calls (trace b3)) (callback r, Resp resp) = 1 \<and>
           req_count b3 = 1 \<and> res_count b3 = 1"
proof -
  note fresh = MessageBus_init_fresh [OF assms(1)]
  have b1: "b1 = b0\<lparr>m_endpoints := [(''svc'', h)],
                    trace := [Log LogDebug (AddedEndpoint ''svc'')]\<rparr>"
    using assms(2) fresh
    by (auto simp: register_def valid_string_def callable_def log_line_def)
  define b2 where "b2 = b1\<lparr>m_correlation_index := [(request_id r, callback r)],
      trace := [Log LogDebug (AddedEndpoint ''svc''), Call h (Req r)], req_count := 1\<rparr>"
  define b3 where "b3 = b2\<lparr>m_correlation_index := [],
      trace := [Log LogDebug (AddedEndpoint ''svc''), Call h (Req r), Call (callback r) (Resp resp)],
      res_count := 1\<rparr>"
  have req: "request b1 (Some ''svc'') (Some r) = (Returned, b2)"
    using assms(3) fresh by (simp add: request_def call_def b1 b2_def)
  have res: "response b2 (Some resp) = (Returned, b3)"
    using assms(4,5) fresh by (simp add: response_def call_def b1 b2_def b3_def dict_del_def)
  have "is_pending_request b2 (Some (request_id r)) = Inr True"
    by (simp add: is_pending_request_def b2_def)
  moreover have "is_pending_request b3 (Some (request_id r)) = Inr False"
    by (simp add: is_pending_request_def b3_def b2_def)
  moreover have "calls (trace b3) = [(h, Req r), (callback r, Resp resp)]"
    by (simp add: b3_def)
  moreover have "req_count b3 = 1" "res_count b3 = 1"
    by (simp_all add: b3_def b2_def)
  ultimately show ?thesis using req res by simp
qed

theorem request_response_round_trip_witness:
  "MessageBus_init None None None [] = Inr (fresh_bus, default_config) \<and>
   register fresh_bus (Some ''svc'') (Some svc_handler) =
     (Returned, fresh_bus\<lparr>m_endpoints := [(''svc'', svc_handler)],
                           trace := [Log LogDebug (AddedEndpoint ''svc'')]\<rparr>) \<and>
   \<not> raises svc_handler \<and> \<not> raises (callback (Request 7 h1)) \<and>
   correlation_id (Response 7 0) = request_id (Request 7 h1) \<and>
   (\<exists>b2 b3.
      request (fresh_bus\<lparr>m_endpoints := [(''svc'', svc_handler)],
                          trace := [Log LogDebug (AddedEndpoint ''svc'')]\<rparr>)
        (Some ''svc'') (Some (Request 7 h1)) = (Returned, b2) \<and>
      is_pending_request b2 (Some (request_id (Request 7 h1))) = Inr True \<and>
      response b2 (Some (Response 7 0)) = (Returned, b3) \<and>
      is_pending_request b3 (Some (request_id (Request 7 h1))) = Inr False \<and>
      calls (trace b3) = [(svc_handler, Req (Request 7 h1)), (callback (Request 7 h1), Resp (Response 7 0))] \<and>
      count_list (calls (trace b3)) (callback (Request 7 h1), Resp (Response 7 0)) = 1 \<and>
      req_count b3 = 1 \<and> res_count b3 = 1)"
proof -
  have reg: "register fresh_bus (Some ''svc'') (Some svc_handler) =
     (Returned, fresh_bus\<lparr>m_endpoints := [(''svc'', svc_handler)],
                           trace := [Log LogDebug (AddedEndpoint ''svc'')]\<rparr>)"
    by (simp add: register_def fresh_bus_def valid_string_def callable_def log_line_def)
  have h: "\<not> raises svc_handler" "\<not> raises (callback (Request 7 h1))"
    by (simp_all add: svc_handler_def h1_def)
  have c: "correlation_id (Response 7 0) = request_id (Request 7 h1)"
    by simp
  show ?thesis
    using fresh_bus_init reg h c
      request_response_round_trip [OF fresh_bus_init reg h c]
    by blast
qed





text \<open>
  C10. \<open>response\<close> removes the correlation entry before it calls the callback. Whether the
  callback returns or raises, the identifier is no longer pending afterwards; when the
  callback raises, \<open>res_count\<close> keeps its value. A second response with the same
  correlation identifier finds no callback: it calls nothing and only writes to the log.
\<close>

theorem response_pops_before_callback:
  assumes "dict_get (=) (m_correlation_index b) (correlation_id resp) = Some cb"
    and "response b (Some resp) = (out, b')"
    and "correlation_id resp2 = correlation_id resp"
  shows "calls (trace b') = calls (trace b) @ [(cb, Resp resp)] \<and>
         is_pending_request b' (Some (correlation_id resp)) = Inr False \<and>
         (raises cb \<longrightarrow> out = Raised (HandlerException cb) \<and> res_count b' = res_count b) \<and>
         (\<not> raises cb \<longrightarrow> out = Returned \<and> res_count b' = res_count b + 1) \<and>
         response b' (Some resp2) =
           (Returned, b'\<lparr>trace := trace b' @ [Log LogError (CallbackNotFound (correlation_id resp))]\<rparr>)"
proof -
  have b': "b' = (if raises cb
                  then b\<lparr>m_correlation_index := dict_del (=) (m_correlation_index b) (correlation_id resp),
                         trace := trace b @ [Call cb (Resp resp)]\<rparr>
                  else b\<lparr>m_correlation_index := dict_del (=) (m_correlation_index b) (correlation_id resp),
                         trace := trace b @ [Call cb (Resp resp)],
                         res_count := res_count b + 1\<rparr>)"
    and out: "out = (if raises cb then Raised (HandlerException cb) else Returned)"
    using assms(1,2) by (auto simp: response_def call_def split: if_splits)
  have gone: "dict_get (=) (m_correlation_index b') (correlation_id resp) = None"
    by (simp add: b' dict_get_del_same)
  then have "response b' (Some resp2) =
           (Returned, b'\<lparr>trace := trace b' @ [Log LogError (CallbackNotFound (correlation_id resp))]\<rparr>)"
    using assms(3) by (simp add: response_def log_line_def)
  moreover have "is_pending_request b' (Some (correlation_id resp)) = Inr False"
    using gone by (simp add: is_pending_request_def)
  moreover have "calls (trace b') = calls (trace b) @ [(cb, Resp resp)]"
    by (simp add: b' calls_append)
  moreover have "res_count b' = (if raises cb then res_count b else res_count b + 1)"
    by (simp add: b')
  ultimately show ?thesis using out by simp
qed

theorem response_pops_before_callback_witness:
  "dict_get (=) (m_correlation_index pending_bus) (correlation_id (Response 7 0)) = Some failing_handler \<and>
   response pending_bus (Some (Response 7 0)) =
     (Raised (HandlerException failing_handler),
      pending_bus\<lparr>m_correlation_index := [], trace := [Call failing_handler (Resp (Response 7 0))]\<rparr>) \<and>
   correlation_id (Response 7 1) = correlation_id (Response 7 0) \<and>
   raises failing_handler \<and>
   is_pending_request
     (pending_bus\<lparr>m_correlation_index := [], trace := [Call failing_handler (Resp (Response 7 0))]\<rparr>)
     (Some (correlation_id (Response 7 0))) = Inr False \<and>
   res_count
     (pending_bus\<lparr>m_correlation_index := [], trace := [Call failing_handler (Resp (Response 7 0))]\<rparr>)
     = res_count pending_bus \<and>
   fst (response
     (pending_bus\<lparr>m_correlation_index := [], trace := [Call failing_handler (Resp (Response 7 0))]\<rparr>)
     (Some (Response 7 1))) = Returned"
proof -
  let ?b' = "pending_bus\<lparr>m_correlation_index := [],
                          trace := [Call failing_handler (Resp (Response 7 0))]\<rparr>"
  have a: "dict_get (=) (m_correlation_index pending_bus) (correlation_id (Response 7 0)) =
             Some failing_handler"
    by (simp add: pending_bus_def fresh_bus_def)
  have r: "response pending_bus (Some (Response 7 0)) = (Raised (HandlerException failing_handler), ?b')"
    by (simp add: response_def call_def pending_bus_def fresh_bus_def failing_handler_def dict_del_def)
  have c: "correlation_id (Response 7 1) = correlation_id (Response 7 0)"
    by simp
  have f: "raises failing_handler"
    by (simp add: failing_handler_def)
  show ?thesis
    using a r c f response_pops_before_callback [OF a r c] by simp
qed



section \<open>Publish: dispatch and external publishing\<close>

lemma isinstance_filtered:
  "isinstance m (filter (\<lambda>ty. ty \<notin> set excluded) types) =
     (\<exists>t \<in> set (mro m). t \<in> set types \<and> t \<notin> set excluded)"
  by (auto simp: isinstance_def list_ex_iff)

lemma external_publish_filter_state:
  assumes "m_has_backing b" and "m_serializer b = Some serialize"
    and "m_publishable_types b = filter (\<lambda>ty. ty \<notin> set excluded) EXTERNAL_PUBLISHING_TYPES"
    and "resolved b topic = (subs, b1)"
    and "list_all (\<lambda>s. \<not> raises (sub_handler s)) subs"
  shows "((\<forall>t \<in> set (mro m). t \<in> set excluded \<or> t \<notin> set EXTERNAL_PUBLISHING_TYPES) \<longrightarrow>
           publish b (Some topic) (Some m) =
             (Returned, b1\<lparr>trace := trace b @ map (\<lambda>s. Call (sub_handler s) (Msg m)) subs,
                           pub_count := pub_count b + 1\<rparr>)) \<and>
         (\<forall>payload. (\<exists>t \<in> set (mro m). t \<in> set EXTERNAL_PUBLISHING_TYPES \<and> t \<notin> set excluded) \<and>
              serialize m = Some payload \<longrightarrow>
           publish b (Some topic) (Some m) =
             (Returned, b1\<lparr>trace := trace b @ map (\<lambda>s. Call (sub_handler s) (Msg m)) subs
                                       @ [Emit topic payload],
                           pub_count := pub_count b + 1\<rparr>))"
proof -
  note f = resolved_fields [OF assms(4)]
  have d: "dispatch subs m b1 =
     (Returned, b1\<lparr>trace := trace b @ map (\<lambda>s. Call (sub_handler s) (Msg m)) subs\<rparr>)"
    using dispatch_all_return [OF assms(5), of m b1] f by simp
  have i: "isinstance m (m_publishable_types b1) =
     (\<exists>t \<in> set (mro m). t \<in> set EXTERNAL_PUBLISHING_TYPES \<and> t \<notin> set excluded)"
    using f assms(3) by (simp add: isinstance_filtered)
  show ?thesis
    using assms(1,2,4) f d i
    by (auto simp: publish_def publish_c_def publish_external_def)
qed


subsection \<open>The configuration of external publishing is never changed\<close>

lemma same_configuration_refl: "same_configuration b b"
  by (simp add: same_configuration_def)

lemma same_configuration_trans:
  "same_configuration a b \<Longrightarrow> same_configuration b c \<Longrightarrow> same_configuration a c"
  by (simp add: same_configuration_def)

lemma unsubscribe_loop_configuration:
  "same_configuration b (snd (unsubscribe_loop sub ts b))"
proof (induction ts arbitrary: b)
  case Nil
  then show ?case by (simp add: same_configuration_def)
next
  case (Cons t ts)
  show ?case
  proof (cases "dict_get (=) (m_patterns b) t")
    case None
    then show ?thesis by (simp add: same_configuration_def)
  next
    case (Some subs)
    show ?thesis
    proof (cases "list_remove sub subs")
      case None
      then show ?thesis using Some by (simp add: same_configuration_def)
    next
      case (Some subs')
      let ?b = "b\<lparr>m_patterns := dict_set (=) (m_patterns b) t (sorted_reverse subs')\<rparr>"
      have "same_configuration b ?b" by (simp add: same_configuration_def)
      then show ?thesis
        using Cons.IH [of ?b] Some \<open>dict_get (=) (m_patterns b) t = Some subs\<close>
        by (auto intro: same_configuration_trans)
    qed
  qed
qed

lemma dispatch_configuration: "same_configuration b (snd (dispatch subs m b))"
proof -
  obtain n where "snd (dispatch subs m b) =
      b\<lparr>trace := trace b @ map (\<lambda>s. Call (sub_handler s) (Msg m)) (take n subs)\<rparr>"
    using dispatch_prefix [of subs m b] by blast
  then show ?thesis by (simp add: same_configuration_def)
qed

lemma publish_configuration: "same_configuration b (snd (publish b topic msg))"
proof (cases "\<exists>tp m. topic = Some tp \<and> msg = Some m")
  case False
  then show ?thesis
    by (cases topic; cases msg) (simp_all add: publish_def publish_c_def same_configuration_def)
next
  case True
  then obtain tp m where tm: "topic = Some tp" "msg = Some m" by blast
  obtain subs b1 where r: "resolved b tp = (subs, b1)" by (cases "resolved b tp") simp
  have c1: "same_configuration b b1"
    using resolved_fields [OF r] by (simp add: same_configuration_def)
  have c2: "same_configuration b1 (snd (dispatch subs m b1))"
    by (rule dispatch_configuration)
  have "same_configuration (snd (dispatch subs m b1)) (snd (publish b topic msg))"
    using r tm
    by (cases "dispatch subs m b1")
       (auto simp: publish_def publish_c_def publish_external_def same_configuration_def
         split: outcome.splits option.splits prod.splits if_splits)
  then show ?thesis
    using c1 c2 by (blast intro: same_configuration_trans)
qed

lemma apply_operation_configuration: "same_configuration b (snd (apply_operation op b))"
proof (cases op)
  case (Register e h)
  then show ?thesis
    by (auto simp: register_def log_line_def same_configuration_def split: option.splits)
next
  case (Deregister e h)
  then show ?thesis
    by (auto simp: deregister_def log_line_def same_configuration_def split: option.splits)
next
  case (Send e m)
  then show ?thesis
    by (auto simp: send_def call_def log_line_def same_configuration_def split: option.splits)
next
  case (DoRequest e r)
  then show ?thesis
    by (auto simp: request_def call_def log_line_def same_configuration_def Let_def
        split: option.splits)
next
  case (DoResponse r)
  then show ?thesis
    by (auto simp: response_def call_def log_line_def same_configuration_def Let_def
        split: option.splits)
next
  case (Subscribe tp h p)
  then show ?thesis
    by (auto simp: subscribe_def log_line_def same_configuration_def
        split: option.splits sum.splits prod.splits)
next
  case (Unsubscribe tp h)
  have "\<And>sub ts. same_configuration b (snd (unsubscribe_loop sub ts b))"
    by (rule unsubscribe_loop_configuration)
  then have u: "\<And>sub ts out b1. unsubscribe_loop sub ts b = (out, b1) \<Longrightarrow> same_configuration b b1"
    by (metis snd_conv)
  show ?thesis
    using Unsubscribe
    by (auto simp: unsubscribe_def log_line_def same_configuration_refl
        split: option.splits sum.splits prod.splits outcome.splits dest!: u)
       (simp_all add: same_configuration_def)
next
  case (Publish tp m)
  then show ?thesis by (simp add: publish_configuration)
qed

lemma run_configuration: "same_configuration b (run ops b)"
proof (induction ops arbitrary: b)
  case Nil
  then show ?case by (simp add: run_def same_configuration_refl)
next
  case (Cons op ops)
  have "run (op # ops) b = run ops (snd (apply_operation op b))"
    by (simp add: run_def)
  then show ?case
    using Cons.IH [of "snd (apply_operation op b)"] apply_operation_configuration [of b op]
    by (auto intro: same_configuration_trans)
qed

lemma MessageBus_init_configuration:
  assumes "MessageBus_init name serializer (Some config) types = Inr (b0, config')"
  shows "m_has_backing b0 = (database config \<noteq> None)" "m_serializer b0 = serializer"
    "m_publishable_types b0 =
       (case types_filter config of None \<Rightarrow> types
        | Some excluded \<Rightarrow> filter (\<lambda>ty. ty \<notin> set excluded) types)"
  using assms by (auto simp: MessageBus_init_def Let_def split: if_splits)

lemma sink_bus_init:
  "MessageBus_init None (Some payload_serializer) (Some sink_config) [''TypeA'', ''Base'', ''TypeB''] =
     Inr (sink_bus, sink_config\<lparr>types_filter := Some []\<rparr>)"
  by (simp add: MessageBus_init_def sink_bus_def fresh_bus_def sink_config_def valid_string_def)


subsection \<open>The filter of external publishing\<close>

lemma dispatch_Returned_iff:
  "(fst (dispatch subs m b) = Returned) = list_all (\<lambda>s. \<not> raises (sub_handler s)) subs"
  by (induction subs arbitrary: b) (simp_all add: call_def)

lemma emitted_map_Call: "emitted (map (\<lambda>s. Call (sub_handler s) (Msg m)) subs) = []"
  by (induction subs) simp_all

lemma publish_handler_raises:
  assumes "resolved b topic = (subs, b1)"
    and "\<not> list_all (\<lambda>s. \<not> raises (sub_handler s)) subs"
  shows "(\<exists>err. fst (publish b (Some topic) (Some m)) = Raised err) \<and>
         emitted (trace (snd (publish b (Some topic) (Some m)))) = emitted (trace b)"
proof -
  obtain out b2 where d: "dispatch subs m b1 = (out, b2)" by (cases "dispatch subs m b1")
  have "out \<noteq> Returned"
    using dispatch_Returned_iff [of subs m b1] d assms(2) by simp
  then obtain err where out: "out = Raised err" by (cases out) simp_all
  obtain n where "snd (dispatch subs m b1) =
      b1\<lparr>trace := trace b1 @ map (\<lambda>s. Call (sub_handler s) (Msg m)) (take n subs)\<rparr>"
    using dispatch_prefix [of subs m b1] by blast
  then have "emitted (trace b2) = emitted (trace b)"
    using d resolved_fields [OF assms(1)] by (simp add: emitted_append emitted_map_Call)
  then show ?thesis
    using assms(1) d out by (simp add: publish_def publish_c_def)
qed

text \<open>
  C5, as the specification states it, fails for a message whose class is in
  \<open>types_filter\<close> and has a base class that is still publishable:
  \<^verbatim>\<open>isinstance\<close> accepts the message through the base class, and the pair is emitted.
\<close>

theorem filtered_subclass_counterexample:
  "MessageBus_init None (Some payload_serializer) (Some sink_config) [''TypeA'', ''Base'', ''TypeB''] =
     Inr (sink_bus, sink_config\<lparr>types_filter := Some []\<rparr>) \<and>
   types_filter sink_config = Some [''TypeA''] \<and>
   mro type_a_msg = [''TypeA'', ''Base'', ''object''] \<and>
   ''TypeA'' \<notin> set (m_publishable_types sink_bus) \<and>
   fst (publish sink_bus (Some ''T'') (Some type_a_msg)) = Returned \<and>
   emitted (trace (snd (publish sink_bus (Some ''T'') (Some type_a_msg)))) = [(''T'', ''payload'')]"
  by (simp add: sink_bus_init)
     (simp add: sink_bus_def fresh_bus_def sink_config_def type_a_msg_def publish_def publish_c_def
       resolved_def resolve_subscriptions_def dict_keys_def sorted_reverse_def publish_external_def
       isinstance_def payload_serializer_def)


text \<open>
  C5, amended. On a bus constructed with a sink, a serializer and a \<open>types_filter\<close>, after
  any sequence of operations, for a publish to the resolved subscriptions of the topic:
  when all handlers return and every class in the method resolution order of the message
  is filtered or not an external publishing type, the handlers are called and nothing is
  emitted; when all handlers return, some class in the method resolution order is an
  external publishing type and not filtered (in particular the class of the message
  itself) and the serializer returns a payload, exactly one pair of topic and payload is
  emitted, after the last handler call; when a handler raises, publish raises and nothing
  is emitted.
\<close>

theorem external_publish_filter:
  assumes "MessageBus_init name (Some serialize) (Some config) EXTERNAL_PUBLISHING_TYPES =
             Inr (b0, config')"
    and "database config \<noteq> None" and "types_filter config = Some excluded"
    and "b = run ops b0"
    and "resolved b topic = (subs, b1)"
  shows "(list_all (\<lambda>s. \<not> raises (sub_handler s)) subs \<and>
          (\<forall>t \<in> set (mro m). t \<in> set excluded \<or> t \<notin> set EXTERNAL_PUBLISHING_TYPES) \<longrightarrow>
           publish b (Some topic) (Some m) =
             (Returned, b1\<lparr>trace := trace b @ map (\<lambda>s. Call (sub_handler s) (Msg m)) subs,
                           pub_count := pub_count b + 1\<rparr>)) \<and>
         (\<forall>payload. list_all (\<lambda>s. \<not> raises (sub_handler s)) subs \<and>
              (\<exists>t \<in> set (mro m). t \<in> set EXTERNAL_PUBLISHING_TYPES \<and> t \<notin> set excluded) \<and>
              serialize m = Some payload \<longrightarrow>
           publish b (Some topic) (Some m) =
             (Returned, b1\<lparr>trace := trace b @ map (\<lambda>s. Call (sub_handler s) (Msg m)) subs
                                       @ [Emit topic payload],
                           pub_count := pub_count b + 1\<rparr>)) \<and>
         (\<not> list_all (\<lambda>s. \<not> raises (sub_handler s)) subs \<longrightarrow>
           (\<exists>err. fst (publish b (Some topic) (Some m)) = Raised err) \<and>
           emitted (trace (snd (publish b (Some topic) (Some m)))) = emitted (trace b))"
proof -
  have "same_configuration b0 b"
    unfolding assms(4) by (rule run_configuration)
  then have cfg: "m_has_backing b" "m_serializer b = Some serialize"
    "m_publishable_types b = filter (\<lambda>ty. ty \<notin> set excluded) EXTERNAL_PUBLISHING_TYPES"
    using MessageBus_init_configuration [OF assms(1)] assms(2,3)
    by (simp_all add: same_configuration_def)
  show ?thesis
    using external_publish_filter_state [OF cfg assms(5), of m]
      publish_handler_raises [OF assms(5), of m]
    by blast
qed

theorem external_publish_filter_witness:
  "MessageBus_init None (Some payload_serializer) (Some sink_config) [''TypeA'', ''Base'', ''TypeB''] =
     Inr (sink_bus, sink_config\<lparr>types_filter := Some []\<rparr>) \<and>
   database sink_config \<noteq> None \<and> types_filter sink_config = Some [''TypeA''] \<and>
   fst (resolved subscribed_sink_bus ''T'') = [Subscription ''T'' h1 0] \<and>
   \<not> raises h1 \<and>
   trace (snd (publish subscribed_sink_bus (Some ''T'') (Some plain_type_a_msg))) =
     trace subscribed_sink_bus @ [Call h1 (Msg plain_type_a_msg)] \<and>
   emitted (trace (snd (publish subscribed_sink_bus (Some ''T'') (Some plain_type_a_msg)))) = [] \<and>
   payload_serializer type_b_msg = Some ''payload'' \<and>
   trace (snd (publish subscribed_sink_bus (Some ''T'') (Some type_b_msg))) =
     trace subscribed_sink_bus @ [Call h1 (Msg type_b_msg), Emit ''T'' ''payload''] \<and>
   emitted (trace (snd (publish subscribed_sink_bus (Some ''T'') (Some type_b_msg)))) =
     [(''T'', ''payload'')] \<and>
   fst (resolved failing_sink_bus ''T'') = [Subscription ''T'' failing_handler 0] \<and>
   raises failing_handler \<and>
   fst (publish failing_sink_bus (Some ''T'') (Some type_b_msg)) =
     Raised (HandlerException failing_handler) \<and>
   emitted (trace (snd (publish failing_sink_bus (Some ''T'') (Some type_b_msg)))) = []"
proof -
  let ?b = subscribed_sink_bus
  have db: "database sink_config \<noteq> None" and tf: "types_filter sink_config = Some [''TypeA'']"
    by (simp_all add: sink_config_def)
  have subs: "fst (resolved ?b ''T'') = [Subscription ''T'' h1 0]"
    by code_simp
  have r: "resolved ?b ''T'' = ([Subscription ''T'' h1 0], snd (resolved ?b ''T''))"
    using subs by (cases "resolved ?b ''T''") simp
  have h: "\<not> raises h1" by (simp add: h1_def)
  then have ok: "list_all (\<lambda>s. \<not> raises (sub_handler s)) [Subscription ''T'' h1 0]"
    by simp
  have tr: "emitted (trace ?b) = []"
    by code_simp
  have ser: "payload_serializer type_b_msg = Some ''payload''"
    by (simp add: payload_serializer_def)
  note inst = external_publish_filter [OF sink_bus_init db tf subscribed_sink_bus_def r]
  have a: "publish ?b (Some ''T'') (Some plain_type_a_msg) =
      (Returned, (snd (resolved ?b ''T''))\<lparr>trace := trace ?b @ [Call h1 (Msg plain_type_a_msg)],
                                          pub_count := pub_count ?b + 1\<rparr>)"
    using inst [of plain_type_a_msg] ok by (simp add: plain_type_a_msg_def)
  have b: "publish ?b (Some ''T'') (Some type_b_msg) =
      (Returned, (snd (resolved ?b ''T''))\<lparr>trace := trace ?b @ [Call h1 (Msg type_b_msg), Emit ''T'' ''payload''],
                                          pub_count := pub_count ?b + 1\<rparr>)"
    using inst [of type_b_msg] ser ok by (simp add: type_b_msg_def)
  let ?f = failing_sink_bus
  have fsubs: "fst (resolved ?f ''T'') = [Subscription ''T'' failing_handler 0]"
    by code_simp
  have fr: "resolved ?f ''T'' = ([Subscription ''T'' failing_handler 0], snd (resolved ?f ''T''))"
    using fsubs by (cases "resolved ?f ''T''") simp
  have fh: "raises failing_handler" by (simp add: failing_handler_def)
  then have bad: "\<not> list_all (\<lambda>s. \<not> raises (sub_handler s)) [Subscription ''T'' failing_handler 0]"
    by simp
  have ftr: "emitted (trace ?f) = []"
    by code_simp
  have fout: "fst (publish ?f (Some ''T'') (Some type_b_msg)) = Raised (HandlerException failing_handler)"
    by code_simp
  have c: "emitted (trace (snd (publish ?f (Some ''T'') (Some type_b_msg)))) = []"
    using external_publish_filter [OF sink_bus_init db tf failing_sink_bus_def fr, of type_b_msg]
      bad ftr by simp
  show ?thesis
    using sink_bus_init db tf subs h ser tr fsubs fh fout c by (simp add: a b emitted_append)
qed


section \<open>Subscribing to a topic that was published before\<close>

text \<open>
  C1 does not hold of the code. \<open>subscribe\<close> calls \<open>is_matching\<close> with the pattern of the
  new subscription as the topic and the cached topic as the pattern, so a wildcard
  subscription is not added to the cached entry of a topic it matches. After
  \<open>data.trade\<close> was published, a subscriber to \<open>data.*\<close> is not called by the next
  publish of \<open>data.trade\<close>; had it subscribed before the first publish, it would be.
\<close>

theorem late_wildcard_subscriber_missed:
  "is_matching ''data.trade'' ''data.*'' \<and>
   m_subscriptions late_bus = [(Subscription ''data.*'' h1 0, [])] \<and>
   m_patterns late_bus = [(''data.trade'', [])] \<and>
   calls (trace late_bus) = [] \<and>
   fst (publish late_bus (Some ''data.trade'') (Some quote)) = Returned \<and>
   calls (trace (snd (publish late_bus (Some ''data.trade'') (Some quote)))) = [] \<and>
   m_subscriptions early_bus = [(Subscription ''data.*'' h1 0, [])] \<and>
   calls (trace (snd (publish early_bus (Some ''data.trade'') (Some quote)))) = [(h1, Msg quote)]"
  by code_simp

text \<open>
  C3 does not hold of the code, by the same defect as C1: the swapped arguments of
  \<open>is_matching\<close> in \<open>subscribe\<close>. After \<open>data.trade\<close> was published, a subscriber to
  \<open>data.trade\<close> with priority 5 and then a subscriber to \<open>data.*\<close> with priority 10
  are registered. Both patterns match \<open>data.trade\<close>, so the next publish of \<open>data.trade\<close>
  should call the handler of priority 10 and then the handler of priority 5. The code
  calls the handler of priority 5 only: the matching subscription of the highest priority
  is not in the cached entry and its handler is not invoked at all. Had both subscribed
  before the first publish, the handlers would be called in the order of the claim.
\<close>

theorem late_high_priority_subscriber_missed:
  "is_matching ''data.trade'' ''data.trade'' \<and> is_matching ''data.trade'' ''data.*'' \<and>
   registered late_priority_bus = [Subscription ''data.trade'' h2 5, Subscription ''data.*'' h1 10] \<and>
   m_patterns late_priority_bus = [(''data.trade'', [Subscription ''data.trade'' h2 5])] \<and>
   calls (trace late_priority_bus) = [] \<and>
   fst (publish late_priority_bus (Some ''data.trade'') (Some quote)) = Returned \<and>
   calls (trace (snd (publish late_priority_bus (Some ''data.trade'') (Some quote)))) =
     [(h2, Msg quote)] \<and>
   registered early_priority_bus = registered late_priority_bus \<and>
   calls (trace (snd (publish early_priority_bus (Some ''data.trade'') (Some quote)))) =
     [(h1, Msg quote), (h2, Msg quote)]"
  by code_simp



section \<open>The cached resolutions stay sorted: priority order of publish\<close>

lemma sub_eq_key: "sub_eq a b = (sub_key a = sub_key b)"
  by (auto simp: sub_eq_def sub_key_def)

lemma set_sorted_reverse: "set (sorted_reverse xs) = set xs"
  by (simp add: sorted_reverse_def)

lemma distinct_sorted_reverse: "distinct (sorted_reverse xs) = distinct xs"
  by (simp add: sorted_reverse_def)

lemma filter_sorted_reverse: "filter P (sorted_reverse xs) = sorted_reverse (filter P xs)"
proof -
  have "filter P (rev (sort_key sub_priority (rev xs))) =
        rev (filter P (sort_key sub_priority (rev xs)))"
    by (simp add: rev_filter)
  also have "\<dots> = rev (sort_key sub_priority (filter P (rev xs)))"
    by (simp only: filter_sort)
  also have "\<dots> = rev (sort_key sub_priority (rev (filter P xs)))"
    by (simp add: rev_filter)
  finally show ?thesis by (simp add: sorted_reverse_def)
qed

lemma sorted_reverse_idem: "sorted_reverse (sorted_reverse xs) = sorted_reverse xs"
  by (simp add: sorted_reverse_def sort_key_id_if_sorted)

lemma sorted_reverse_snoc: "sorted_reverse (sorted_reverse xs @ [a]) = sorted_reverse (xs @ [a])"
  by (simp add: sorted_reverse_def sort_key_id_if_sorted)

lemma sorted_reverse_descending:
  "sorted_wrt (\<lambda>x y. sub_priority x \<ge> sub_priority y) (sorted_reverse xs)"
proof -
  have "sorted (map sub_priority (sort_key sub_priority (rev xs)))"
    by simp
  then have "sorted_wrt (\<lambda>x y. sub_priority x \<le> sub_priority y) (sort_key sub_priority (rev xs))"
    by (simp only: sorted_map)
  then show ?thesis
    by (simp add: sorted_reverse_def sorted_wrt_rev)
qed

lemma sorted_reverse_stable:
  "filter (\<lambda>s. sub_priority s = k) (sorted_reverse xs) = filter (\<lambda>s. sub_priority s = k) xs"
proof -
  have "filter (\<lambda>s. sub_priority s = k) (sort_key sub_priority (rev xs)) =
        filter (\<lambda>s. sub_priority s = k) (rev xs)"
    by (rule sort_key_stable)
  then show ?thesis
    by (simp add: sorted_reverse_def rev_filter [symmetric])
qed

lemma sorted_reverse_Nil: "sorted_reverse [] = []"
  by (simp add: sorted_reverse_def)

lemma dict_get_map_of: "dict_get (=) d k = map_of d k"
  by (induction d) auto

lemma dict_set_keys_present:
  "dict_get (=) d k = Some v \<Longrightarrow> map fst (dict_set (=) d k v') = map fst d"
  by (induction d) (auto split: if_splits)

lemma dict_set_keys_absent:
  "dict_get eq d k = None \<Longrightarrow> dict_set eq d k v = d @ [(k, v)]"
  by (induction d) (auto split: if_splits)

lemma dict_get_None_iff: "(dict_get eq d k = None) = (\<forall>k' \<in> fst ` set d. \<not> eq k' k)"
  by (induction d) (auto split: if_splits)

lemma dict_get_Some_member:
  "dict_get eq d k = Some v \<Longrightarrow> \<exists>k'. (k', v) \<in> set d \<and> eq k' k"
  by (induction d) (auto split: if_splits)

lemma dict_get_distinct_member:
  "distinct (map fst d) \<Longrightarrow> (dict_get (=) d k = Some v) = ((k, v) \<in> set d)"
  by (simp add: dict_get_map_of)

lemma dict_set_keys_eq_present:
  "\<exists>k' \<in> fst ` set d. eq k' k \<Longrightarrow> map fst (dict_set eq d k v) = map fst d"
proof (induction d)
  case Nil
  then show ?case by simp
next
  case (Cons kv d)
  show ?case
  proof (cases "eq (fst kv) k")
    case True
    then show ?thesis by (cases kv) simp
  next
    case False
    then have "\<exists>k' \<in> fst ` set d. eq k' k" using Cons.prems by auto
    then show ?thesis using Cons.IH False by (cases kv) simp
  qed
qed

lemma ordered_filter: "ordered regs (sorted_reverse (filter P regs))"
proof -
  have "filter (\<lambda>s. s \<in> set (sorted_reverse (filter P regs))) regs = filter P regs"
    by (rule filter_cong) (auto simp: set_sorted_reverse)
  then show ?thesis by (simp add: ordered_def)
qed

lemma ordered_subset: "ordered regs subs \<Longrightarrow> set subs \<subseteq> set regs"
proof -
  assume "ordered regs subs"
  then have "set (sorted_reverse (filter (\<lambda>s. s \<in> set subs) regs)) = set subs"
    unfolding ordered_def by (rule arg_cong [OF sym])
  then show ?thesis unfolding set_sorted_reverse by auto
qed

lemma ordered_distinct: "distinct regs \<Longrightarrow> ordered regs subs \<Longrightarrow> distinct subs"
proof -
  assume d: "distinct regs" and o: "ordered regs subs"
  have "sorted_reverse (filter (\<lambda>s. s \<in> set subs) regs) = subs"
    using o unfolding ordered_def by (rule sym)
  moreover have "distinct (sorted_reverse (filter (\<lambda>s. s \<in> set subs) regs))"
    using d by (simp add: distinct_sorted_reverse)
  ultimately show ?thesis by (rule subst)
qed

lemma distinct_keys_distinct: "distinct (map sub_key regs) \<Longrightarrow> distinct regs"
  by (rule distinct_map [THEN iffD1, THEN conjunct1])

lemma sub_key_unique:
  "distinct (map sub_key regs) \<Longrightarrow> a \<in> set regs \<Longrightarrow> b \<in> set regs \<Longrightarrow> sub_eq a b \<Longrightarrow> a = b"
  by (auto simp: distinct_map sub_eq_key dest: inj_onD)

lemma note_topic_Nil: "note_topic T s [] = [(s, [T])]"
  by (simp add: note_topic_def)

lemma note_topic_Cons:
  "note_topic T s ((k, v) # d) =
     (if sub_eq k s then (k, sort (if T \<in> set v then v else v @ [T])) # d
      else (k, v) # note_topic T s d)"
  by (cases "sub_eq k s") (simp_all add: note_topic_def Let_def)

lemma note_topic_keys:
  "s \<in> fst ` set index \<Longrightarrow> map fst (note_topic T s index) = map fst index"
proof -
  assume "s \<in> fst ` set index"
  then have "\<exists>k' \<in> fst ` set index. sub_eq k' s"
    by (auto simp: sub_eq_def)
  then show ?thesis
    unfolding note_topic_def Let_def by (rule dict_set_keys_eq_present)
qed

lemma note_topic_grows:
  "(s, ts) \<in> set index \<Longrightarrow> \<exists>ts'. (s, ts') \<in> set (note_topic T s' index) \<and> set ts \<subseteq> set ts'"
proof (induction index)
  case Nil
  then show ?case by simp
next
  case (Cons kv index)
  obtain k v where kv: "kv = (k, v)" by (cases kv)
  show ?case
  proof (cases "sub_eq k s'")
    case True
    then show ?thesis using Cons.prems kv
      by (auto simp: note_topic_Cons)
  next
    case False
    then show ?thesis using Cons kv
      by (auto simp: note_topic_Cons)
  qed
qed

lemma note_topic_lists:
  "distinct (map sub_key (map fst index)) \<Longrightarrow> s \<in> fst ` set index \<Longrightarrow>
   \<exists>ts'. (s, ts') \<in> set (note_topic T s index) \<and> T \<in> set ts'"
proof (induction index)
  case Nil
  then show ?case by simp
next
  case (Cons kv index)
  obtain k v where kv: "kv = (k, v)" by (cases kv)
  show ?case
  proof (cases "sub_eq k s")
    case True
    have "k = s"
      using sub_key_unique [OF Cons.prems(1), of k s] Cons.prems(2) True kv by auto
    then show ?thesis using True kv
      by (auto simp: note_topic_Cons)
  next
    case False
    then have "s \<in> fst ` set index"
      using Cons.prems(2) kv by (auto simp: sub_eq_def)
    then show ?thesis using Cons False kv
      by (auto simp: note_topic_Cons)
  qed
qed

lemma fold_note_topic_keys:
  "set xs \<subseteq> fst ` set index \<Longrightarrow> map fst (fold (note_topic T) xs index) = map fst index"
proof (induction xs arbitrary: index)
  case Nil
  then show ?case by simp
next
  case (Cons x xs)
  have k: "map fst (note_topic T x index) = map fst index"
    using Cons.prems by (intro note_topic_keys) simp
  then have "fst ` set (note_topic T x index) = fst ` set index"
    by (metis set_map)
  then have "map fst (fold (note_topic T) xs (note_topic T x index)) = map fst (note_topic T x index)"
    using Cons.prems by (intro Cons.IH) simp
  then show ?case using k by simp
qed

lemma fold_note_topic_grows:
  "(s, ts) \<in> set index \<Longrightarrow>
   \<exists>ts'. (s, ts') \<in> set (fold (note_topic T) xs index) \<and> set ts \<subseteq> set ts'"
proof (induction xs arbitrary: index ts)
  case Nil
  then show ?case by auto
next
  case (Cons x xs)
  from note_topic_grows [OF Cons.prems, of T x]
  obtain ts1 where 1: "(s, ts1) \<in> set (note_topic T x index)" "set ts \<subseteq> set ts1" by blast
  from Cons.IH [OF 1(1)]
  obtain ts2 where "(s, ts2) \<in> set (fold (note_topic T) xs (note_topic T x index))"
    "set ts1 \<subseteq> set ts2" by blast
  then show ?case using 1(2) by auto
qed

lemma fold_note_topic_lists:
  "distinct (map sub_key (map fst index)) \<Longrightarrow> set xs \<subseteq> fst ` set index \<Longrightarrow> s \<in> set xs \<Longrightarrow>
   \<exists>ts'. (s, ts') \<in> set (fold (note_topic T) xs index) \<and> T \<in> set ts'"
proof (induction xs arbitrary: index)
  case Nil
  then show ?case by simp
next
  case (Cons x xs)
  have k: "map fst (note_topic T x index) = map fst index"
    using Cons.prems(2) by (intro note_topic_keys) simp
  then have ks: "fst ` set (note_topic T x index) = fst ` set index"
    by (metis set_map)
  show ?case
  proof (cases "s = x")
    case True
    from note_topic_lists [OF Cons.prems(1), of s T]
    obtain ts1 where 1: "(s, ts1) \<in> set (note_topic T s index)" "T \<in> set ts1"
      using Cons.prems(2) True by auto
    from fold_note_topic_grows [OF 1(1), of T xs]
    show ?thesis using 1(2) True by auto
  next
    case False
    then have "s \<in> set xs" using Cons.prems(3) by simp
    moreover have "distinct (map sub_key (map fst (note_topic T x index)))"
      using Cons.prems(1) k by simp
    moreover have "set xs \<subseteq> fst ` set (note_topic T x index)"
      using Cons.prems(2) ks by simp
    ultimately show ?thesis
      using Cons.IH [of "note_topic T x index"] by simp
  qed
qed

lemma dict_get_keys: "(dict_get (=) d k \<noteq> None) = (k \<in> fst ` set d)"
  by (induction d) auto

lemma resolve_subscriptions_inv:
  assumes "cache_inv b" and "dict_get (=) (m_patterns b) T = None"
  shows "cache_inv (snd (resolve_subscriptions b T))"
proof -
  let ?regs = "registered b" and ?index = "m_subscriptions b"
  let ?subs = "sorted_reverse (filter (\<lambda>s. is_matching T (sub_topic s)) ?regs)"
  let ?index' = "fold (note_topic T) ?subs ?index"
  let ?cache' = "dict_set (=) (m_patterns b) T ?subs"
  let ?b' = "snd (resolve_subscriptions b T)"
  have b': "m_patterns ?b' = ?cache'" "m_subscriptions ?b' = ?index'"
    by (simp_all add: resolve_subscriptions_def registered_def Let_def)
  have dk: "distinct (map sub_key (map fst ?index))"
    using assms(1) by (simp add: cache_inv_def registered_def dict_keys_def)
  have sub: "set ?subs \<subseteq> fst ` set ?index"
    by (auto simp: set_sorted_reverse registered_def dict_keys_def)
  have keys: "map fst ?index' = map fst ?index"
    using sub by (rule fold_note_topic_keys)
  then have regs': "registered ?b' = ?regs"
    by (simp add: registered_def dict_keys_def b')
  have "?cache' = m_patterns b @ [(T, ?subs)]"
    using assms(2) by (rule dict_set_keys_absent)
  moreover have "T \<notin> fst ` set (m_patterns b)"
    using assms(2) dict_get_keys [of "m_patterns b" T] by simp
  ultimately have "distinct (map fst ?cache')"
    using assms(1) by (simp add: cache_inv_def)
  then have d1: "distinct (map fst (m_patterns ?b'))"
    by (simp only: b')
  have d2: "distinct (map sub_key (registered ?b'))"
    using assms(1) regs' by (simp add: cache_inv_def)
  have entries: "ordered (registered ?b') subs \<and> listed (m_subscriptions ?b') T' subs"
    if get: "dict_get (=) (m_patterns ?b') T' = Some subs" for T' subs
  proof (cases "T' = T")
    case True
    then have s: "subs = ?subs"
      using get by (simp add: b' dict_get_set_same)
    have "ordered ?regs ?subs" by (rule ordered_filter)
    moreover have "listed ?index' T ?subs"
      unfolding listed_def
    proof
      fix x assume "x \<in> set ?subs"
      then show "\<exists>ts. (x, ts) \<in> set ?index' \<and> T \<in> set ts"
        using fold_note_topic_lists [OF dk sub] by blast
    qed
    ultimately show ?thesis using True s regs' b' by simp
  next
    case False
    then have old: "dict_get (=) (m_patterns b) T' = Some subs"
      using get by (simp add: b' dict_get_set_other)
    then have o: "ordered ?regs subs" and l: "listed ?index T' subs"
      using assms(1) by (simp_all add: cache_inv_def)
    have "listed ?index' T' subs"
      unfolding listed_def
    proof
      fix x assume "x \<in> set subs"
      then obtain ts where "(x, ts) \<in> set ?index" "T' \<in> set ts"
        using l by (auto simp: listed_def)
      then show "\<exists>ts. (x, ts) \<in> set ?index' \<and> T' \<in> set ts"
        using fold_note_topic_grows [of x ts ?index T ?subs] by blast
    qed
    then show ?thesis using o regs' b' by simp
  qed
  show ?thesis
    unfolding cache_inv_def
  proof (intro conjI allI impI)
    show "distinct (map fst (m_patterns ?b'))" by (rule d1)
  next
    show "distinct (map sub_key (registered ?b'))" by (rule d2)
  next
    fix T' subs
    assume "dict_get (=) (m_patterns ?b') T' = Some subs"
    then show "ordered (registered ?b') subs" by (simp add: entries)
  next
    fix T' subs
    assume "dict_get (=) (m_patterns ?b') T' = Some subs"
    then show "listed (m_subscriptions ?b') T' subs" by (simp add: entries)
  qed
qed

lemma subscribe_step_keys: "map fst (fst (subscribe_step sub T st)) = map fst (fst st)"
  by (cases st) (auto simp: subscribe_step_def dict_set_keys_present split: option.splits)

lemma fold_subscribe_step_keys:
  "map fst (fst (fold (subscribe_step sub) ks st)) = map fst (fst st)"
  by (induction ks arbitrary: st) (simp_all add: subscribe_step_keys)

lemma subscribe_step_get:
  "dict_get (=) (fst (subscribe_step sub k (c, ms))) T =
     (if T = k \<and> is_matching (sub_topic sub) k
      then map_option (\<lambda>subs. sorted_reverse (subs @ [sub])) (dict_get (=) c T)
      else dict_get (=) c T)"
  by (auto simp: subscribe_step_def dict_get_set_same dict_get_set_other split: option.splits)

lemma fold_subscribe_step_get:
  "distinct ks \<Longrightarrow>
   dict_get (=) (fst (fold (subscribe_step sub) ks (c, ms))) T =
     (if T \<in> set ks \<and> is_matching (sub_topic sub) T
      then map_option (\<lambda>subs. sorted_reverse (subs @ [sub])) (dict_get (=) c T)
      else dict_get (=) c T)"
proof (induction ks arbitrary: c ms)
  case Nil
  then show ?case by simp
next
  case (Cons k ks)
  obtain c1 ms1 where st: "subscribe_step sub k (c, ms) = (c1, ms1)"
    by (cases "subscribe_step sub k (c, ms)")
  have c1: "dict_get (=) c1 T =
     (if T = k \<and> is_matching (sub_topic sub) k
      then map_option (\<lambda>subs. sorted_reverse (subs @ [sub])) (dict_get (=) c T)
      else dict_get (=) c T)"
    using subscribe_step_get [of sub k c ms T] st by simp
  have "dict_get (=) (fst (fold (subscribe_step sub) ks (c1, ms1))) T =
     (if T \<in> set ks \<and> is_matching (sub_topic sub) T
      then map_option (\<lambda>subs. sorted_reverse (subs @ [sub])) (dict_get (=) c1 T)
      else dict_get (=) c1 T)"
    using Cons.prems by (intro Cons.IH) simp
  then show ?case
    using c1 st Cons.prems by auto
qed

lemma subscribe_step_matches:
  "set (snd (subscribe_step sub k (c, ms))) =
     set ms \<union> (if is_matching (sub_topic sub) k \<and> k \<in> fst ` set c then {k} else {})"
  using dict_get_keys [of c k]
  by (auto simp: subscribe_step_def split: option.splits)

lemma fold_subscribe_step_matches:
  "set (snd (fold (subscribe_step sub) ks (c, ms))) =
     set ms \<union> {T \<in> set ks. is_matching (sub_topic sub) T \<and> T \<in> fst ` set c}"
proof (induction ks arbitrary: c ms)
  case Nil
  then show ?case by simp
next
  case (Cons k ks)
  obtain c1 ms1 where st: "subscribe_step sub k (c, ms) = (c1, ms1)"
    by (cases "subscribe_step sub k (c, ms)")
  have "map fst c1 = map fst c"
    using subscribe_step_keys [of sub k "(c, ms)"] st by simp
  then have keys: "fst ` set c1 = fst ` set c"
    by (metis set_map)
  have ms1: "set ms1 = set ms \<union> (if is_matching (sub_topic sub) k \<and> k \<in> fst ` set c then {k} else {})"
    using subscribe_step_matches [of sub k c ms] st by simp
  show ?case
    using Cons.IH [of c1 ms1] st keys ms1 by auto
qed

lemma cache_inv_fields:
  "m_patterns b' = m_patterns b \<Longrightarrow> m_subscriptions b' = m_subscriptions b \<Longrightarrow>
   cache_inv b' = cache_inv b"
  by (simp add: cache_inv_def registered_def)

lemma cache_inv_log_line: "cache_inv (log_line level line b) = cache_inv b"
  by (rule cache_inv_fields) (simp_all add: log_line_def)

lemma ordered_eq: "ordered regs subs \<Longrightarrow> sorted_reverse (filter (\<lambda>s. s \<in> set subs) regs) = subs"
  unfolding ordered_def by (rule sym)

lemma ordered_cong:
  "ordered regs subs \<Longrightarrow> filter (\<lambda>s. s \<in> set subs) regs' = filter (\<lambda>s. s \<in> set subs) regs \<Longrightarrow>
   ordered regs' subs"
  unfolding ordered_def by (erule ssubst) simp

lemma subscribe_new_inv:
  assumes inv: "cache_inv b"
    and new: "dict_get sub_eq (m_subscriptions b) sub = None"
    and loop: "fold (subscribe_step sub) (dict_keys (m_patterns b)) (m_patterns b, []) = (cache', matches)"
  shows "cache_inv (b\<lparr>m_patterns := cache',
                      m_subscriptions := dict_set sub_eq (m_subscriptions b) sub (sort matches)\<rparr>)"
proof -
  let ?regs = "registered b" and ?index = "m_subscriptions b" and ?cache = "m_patterns b"
  let ?index' = "dict_set sub_eq ?index sub (sort matches)"
  let ?b' = "b\<lparr>m_patterns := cache', m_subscriptions := ?index'\<rparr>"
  have index': "?index' = ?index @ [(sub, sort matches)]"
    using new by (rule dict_set_keys_absent)
  then have regs': "registered ?b' = ?regs @ [sub]"
    by (simp add: registered_def dict_keys_def)
  have fresh_key: "sub_key sub \<notin> sub_key ` set ?regs"
    using new by (auto simp: dict_get_None_iff sub_eq_key registered_def dict_keys_def)
  then have fresh: "sub \<notin> set ?regs" by auto
  have dk: "distinct (map fst ?cache)" and dr: "distinct (map sub_key ?regs)"
    using inv by (simp_all add: cache_inv_def)
  have keys: "map fst cache' = map fst ?cache"
    using fold_subscribe_step_keys [of sub "dict_keys ?cache" "(?cache, [])"] loop by simp
  have get: "dict_get (=) cache' T =
     (if T \<in> fst ` set ?cache \<and> is_matching (sub_topic sub) T
      then map_option (\<lambda>subs. sorted_reverse (subs @ [sub])) (dict_get (=) ?cache T)
      else dict_get (=) ?cache T)" for T
    using fold_subscribe_step_get [of "dict_keys ?cache" sub ?cache "[]" T] dk loop
    by (simp add: dict_keys_def)
  have ms: "set matches = {T \<in> fst ` set ?cache. is_matching (sub_topic sub) T}"
    using fold_subscribe_step_matches [of sub "dict_keys ?cache" ?cache "[]"] loop
    by (auto simp: dict_keys_def)
  have entries: "ordered (?regs @ [sub]) subs' \<and> listed ?index' T subs'"
    if g: "dict_get (=) cache' T = Some subs'" for T subs'
  proof (cases "T \<in> fst ` set ?cache \<and> is_matching (sub_topic sub) T")
    case True
    then obtain subs where old: "dict_get (=) ?cache T = Some subs"
      and s': "subs' = sorted_reverse (subs @ [sub])"
      using g get [of T] by (cases "dict_get (=) ?cache T") auto
    have o: "ordered ?regs subs" and l: "listed ?index T subs"
      using inv old by (simp_all add: cache_inv_def)
    have set': "set subs' = insert sub (set subs)"
      by (simp add: s' set_sorted_reverse)
    have "\<And>s. s \<in> set ?regs \<Longrightarrow> (s \<in> set subs') = (s \<in> set subs)"
      using fresh set' by auto
    then have "filter (\<lambda>s. s \<in> set subs') ?regs = filter (\<lambda>s. s \<in> set subs) ?regs"
      by (intro filter_cong) simp_all
    then have f: "filter (\<lambda>s. s \<in> set subs') (?regs @ [sub]) =
                  filter (\<lambda>s. s \<in> set subs) ?regs @ [sub]"
      using set' by simp
    have "sorted_reverse (sorted_reverse (filter (\<lambda>s. s \<in> set subs) ?regs) @ [sub]) =
          sorted_reverse (filter (\<lambda>s. s \<in> set subs) ?regs @ [sub])"
      by (rule sorted_reverse_snoc)
    then have "sorted_reverse (subs @ [sub]) =
          sorted_reverse (filter (\<lambda>s. s \<in> set subs) ?regs @ [sub])"
      by (simp only: ordered_eq [OF o])
    then have "subs' = sorted_reverse (filter (\<lambda>s. s \<in> set subs') (?regs @ [sub]))"
      unfolding f by (simp only: s')
    then have o': "ordered (?regs @ [sub]) subs'"
      unfolding ordered_def .
    have "T \<in> set (sort matches)" using True ms by simp
    then have "listed ?index' T subs'"
      using l set' by (auto simp: listed_def index')
    then show ?thesis using o' by simp
  next
    case False
    then have old: "dict_get (=) ?cache T = Some subs'"
      using g get [of T] by (auto split: if_splits)
    have o: "ordered ?regs subs'" and l: "listed ?index T subs'"
      using inv old by (simp_all add: cache_inv_def)
    have "sub \<notin> set subs'"
      using ordered_subset [OF o] fresh by auto
    then have "filter (\<lambda>s. s \<in> set subs') (?regs @ [sub]) = filter (\<lambda>s. s \<in> set subs') ?regs"
      by simp
    with o have "ordered (?regs @ [sub]) subs'"
      by (rule ordered_cong)
    moreover have "listed ?index' T subs'"
      using l by (auto simp: listed_def index')
    ultimately show ?thesis by simp
  qed
  show ?thesis
    unfolding cache_inv_def
  proof (intro conjI allI impI)
    show "distinct (map fst (m_patterns ?b'))" using keys dk by simp
  next
    show "distinct (map sub_key (registered ?b'))"
      using regs' dr fresh_key by simp
  next
    fix T subs
    assume "dict_get (=) (m_patterns ?b') T = Some subs"
    then show "ordered (registered ?b') subs" using entries [of T subs] regs' by simp
  next
    fix T subs
    assume "dict_get (=) (m_patterns ?b') T = Some subs"
    then show "listed (m_subscriptions ?b') T subs" using entries [of T subs] by simp
  qed
qed

lemma subscribe_inv:
  assumes "cache_inv b"
  shows "cache_inv (snd (subscribe b topic handler priority))"
proof (cases "fits_c_int priority \<and> valid_string topic \<and> callable handler")
  case False
  then show ?thesis using assms by (auto simp: subscribe_def)
next
  case ok: True
  show ?thesis
  proof (cases "Subscription_init topic handler priority")
    case (Inl err)
    then show ?thesis using assms ok by (simp add: subscribe_def)
  next
    case (Inr sub)
    show ?thesis
    proof (cases "dict_get sub_eq (m_subscriptions b) sub")
      case (Some ts)
      have "cache_inv (log_line LogDebug (SubscriptionExists sub) b)"
        using assms by (simp add: cache_inv_log_line)
      then show ?thesis using ok Inr Some by (simp add: subscribe_def)
    next
      case None
      obtain cache' matches where loop:
        "fold (subscribe_step sub) (dict_keys (m_patterns b)) (m_patterns b, []) = (cache', matches)"
        by (cases "fold (subscribe_step sub) (dict_keys (m_patterns b)) (m_patterns b, [])")
      let ?b' = "b\<lparr>m_patterns := cache',
                    m_subscriptions := dict_set sub_eq (m_subscriptions b) sub (sort matches)\<rparr>"
      have "cache_inv ?b'"
        using assms None loop by (rule subscribe_new_inv)
      then have "cache_inv (log_line LogDebug (AddedSubscription sub) ?b')"
        by (simp only: cache_inv_log_line)
      then show ?thesis using ok Inr None loop by (simp add: subscribe_def)
    qed
  qed
qed

lemma sub_eq_sym: "sub_eq a b \<Longrightarrow> sub_eq b a"
  by (simp add: sub_eq_def)

lemma sub_eq_trans: "sub_eq a b \<Longrightarrow> sub_eq b c \<Longrightarrow> sub_eq a c"
  by (simp add: sub_eq_def)

lemma list_remove_Some:
  "list_remove x ys = Some ys' \<Longrightarrow> \<exists>k. k \<in> set ys \<and> sub_eq k x \<and> ys' = remove1 k ys"
proof (induction ys arbitrary: ys')
  case Nil
  then show ?case by simp
next
  case (Cons y ys)
  show ?case
  proof (cases "sub_eq y x")
    case True
    then have "ys' = remove1 y (y # ys)" using Cons.prems by simp
    then show ?thesis using True by auto
  next
    case False
    then obtain zs where zs: "list_remove x ys = Some zs" and ys': "ys' = y # zs"
      using Cons.prems by auto
    from Cons.IH [OF zs] obtain k where k: "k \<in> set ys" "sub_eq k x" "zs = remove1 k ys"
      by blast
    have "k \<noteq> y" using k(2) False by auto
    then have "ys' = remove1 k (y # ys)" using ys' k(3) by simp
    then show ?thesis using k by auto
  qed
qed

lemma ordered_filter_sub:
  assumes "ordered regs subs"
  shows "ordered regs (sorted_reverse (filter Q subs))"
proof -
  let ?P = "\<lambda>s. s \<in> set subs"
  have "filter Q (sorted_reverse (filter ?P regs)) = sorted_reverse (filter Q (filter ?P regs))"
    by (rule filter_sorted_reverse)
  then have "filter Q subs = sorted_reverse (filter Q (filter ?P regs))"
    by (simp only: ordered_eq [OF assms])
  then have "sorted_reverse (filter Q subs) = sorted_reverse (filter (\<lambda>s. ?P s \<and> Q s) regs)"
    by (simp add: sorted_reverse_idem)
  then show ?thesis
    by (simp only: ordered_filter)
qed

lemma unsubscribe_step_inv:
  assumes inv: "cache_inv b"
    and get: "dict_get (=) (m_patterns b) T = Some subs"
    and rem: "list_remove sub0 subs = Some subs'"
  shows "cache_inv (b\<lparr>m_patterns := dict_set (=) (m_patterns b) T (sorted_reverse subs')\<rparr>)"
    and "\<forall>k \<in> set (sorted_reverse subs'). \<not> sub_eq k sub0"
proof -
  let ?regs = "registered b" and ?index = "m_subscriptions b" and ?cache = "m_patterns b"
  let ?b' = "b\<lparr>m_patterns := dict_set (=) ?cache T (sorted_reverse subs')\<rparr>"
  have o: "ordered ?regs subs" and l: "listed ?index T subs"
    using inv get by (simp_all add: cache_inv_def)
  have dr: "distinct (map sub_key ?regs)" and dk: "distinct (map fst ?cache)"
    using inv by (simp_all add: cache_inv_def)
  have ds: "distinct subs"
    using distinct_keys_distinct [OF dr] o by (rule ordered_distinct)
  obtain k where k: "k \<in> set subs" "sub_eq k sub0" "subs' = remove1 k subs"
    using list_remove_Some [OF rem] by blast
  have subs': "subs' = filter (\<lambda>s. s \<noteq> k) subs"
    using k(3) ds by (simp add: distinct_remove1_removeAll removeAll_filter_not_eq) metis
  have o': "ordered ?regs (sorted_reverse subs')"
    unfolding subs' using o by (rule ordered_filter_sub)
  have l': "listed ?index T (sorted_reverse subs')"
    using l by (auto simp: listed_def set_sorted_reverse subs')
  show none: "\<forall>k' \<in> set (sorted_reverse subs'). \<not> sub_eq k' sub0"
  proof
    fix k' assume "k' \<in> set (sorted_reverse subs')"
    then have in': "k' \<in> set subs" and ne: "k' \<noteq> k"
      by (auto simp: set_sorted_reverse subs')
    show "\<not> sub_eq k' sub0"
    proof
      assume "sub_eq k' sub0"
      then have "sub_eq k' k" using k(2) by (blast intro: sub_eq_trans sub_eq_sym)
      moreover have "k' \<in> set ?regs" "k \<in> set ?regs"
        using ordered_subset [OF o] in' k(1) by auto
      ultimately have "k' = k" using sub_key_unique [OF dr] by blast
      then show False using ne by simp
    qed
  qed
  have keys: "map fst (m_patterns ?b') = map fst ?cache"
    using get by (simp add: dict_set_keys_present)
  show "cache_inv ?b'"
    unfolding cache_inv_def
  proof (intro conjI allI impI)
    show "distinct (map fst (m_patterns ?b'))" using keys dk by simp
  next
    show "distinct (map sub_key (registered ?b'))" using dr by (simp add: registered_def)
  next
    fix T' s
    assume g: "dict_get (=) (m_patterns ?b') T' = Some s"
    show "ordered (registered ?b') s"
    proof (cases "T' = T")
      case True
      then show ?thesis using g o' by (simp add: dict_get_set_same registered_def)
    next
      case False
      then have "dict_get (=) ?cache T' = Some s" using g by (simp add: dict_get_set_other)
      then show ?thesis using inv by (simp add: cache_inv_def registered_def)
    qed
  next
    fix T' s
    assume g: "dict_get (=) (m_patterns ?b') T' = Some s"
    show "listed (m_subscriptions ?b') T' s"
    proof (cases "T' = T")
      case True
      then show ?thesis using g l' by (simp add: dict_get_set_same)
    next
      case False
      then have "dict_get (=) ?cache T' = Some s" using g by (simp add: dict_get_set_other)
      then show ?thesis using inv by (simp add: cache_inv_def)
    qed
  qed
qed

lemma unsubscribe_loop_inv:
  "cache_inv b \<Longrightarrow>
   cache_inv (snd (unsubscribe_loop sub0 ts b)) \<and>
   m_subscriptions (snd (unsubscribe_loop sub0 ts b)) = m_subscriptions b"
proof (induction ts arbitrary: b)
  case Nil
  then show ?case by simp
next
  case (Cons T ts)
  show ?case
  proof (cases "dict_get (=) (m_patterns b) T")
    case None
    then show ?thesis using Cons.prems by simp
  next
    case (Some subs)
    show ?thesis
    proof (cases "list_remove sub0 subs")
      case None
      then show ?thesis using Cons.prems Some by simp
    next
      case rem: (Some subs')
      let ?b' = "b\<lparr>m_patterns := dict_set (=) (m_patterns b) T (sorted_reverse subs')\<rparr>"
      have "cache_inv ?b'"
        using Cons.prems Some rem by (rule unsubscribe_step_inv(1))
      then have "cache_inv (snd (unsubscribe_loop sub0 ts ?b')) \<and>
                 m_subscriptions (snd (unsubscribe_loop sub0 ts ?b')) = m_subscriptions ?b'"
        by (rule Cons.IH)
      then show ?thesis using Some rem by simp
    qed
  qed
qed

lemma unsubscribe_loop_removes:
  "cache_inv b \<Longrightarrow> unsubscribe_loop sub0 ts b = (Returned, b1) \<Longrightarrow> sub_eq k sub0 \<Longrightarrow>
   holds b1 T k \<Longrightarrow> holds b T k \<and> T \<notin> set ts"
proof (induction ts arbitrary: b)
  case Nil
  then show ?case by simp
next
  case (Cons T0 ts)
  from Cons.prems(2) obtain subs where get: "dict_get (=) (m_patterns b) T0 = Some subs"
    by (cases "dict_get (=) (m_patterns b) T0") auto
  from Cons.prems(2) get obtain subs' where rem: "list_remove sub0 subs = Some subs'"
    by (cases "list_remove sub0 subs") auto
  let ?b' = "b\<lparr>m_patterns := dict_set (=) (m_patterns b) T0 (sorted_reverse subs')\<rparr>"
  have loop: "unsubscribe_loop sub0 ts ?b' = (Returned, b1)"
    using Cons.prems(2) get rem by simp
  have inv': "cache_inv ?b'"
    using Cons.prems(1) get rem by (rule unsubscribe_step_inv(1))
  have none: "\<forall>k \<in> set (sorted_reverse subs'). \<not> sub_eq k sub0"
    using Cons.prems(1) get rem by (rule unsubscribe_step_inv(2))
  have h': "holds ?b' T k" and nin: "T \<notin> set ts"
    using Cons.IH [OF inv' loop Cons.prems(3,4)] by simp_all
  have "T \<noteq> T0"
  proof
    assume "T = T0"
    then have "k \<in> set (sorted_reverse subs')"
      using h' by (simp add: holds_def dict_get_set_same)
    then show False using none Cons.prems(3) by blast
  qed
  then have "holds b T k"
    using h' by (simp add: holds_def dict_get_set_other)
  then show ?case using nin \<open>T \<noteq> T0\<close> by simp
qed

lemma distinct_keys_same_value:
  "distinct (map fst d) \<Longrightarrow> (k, v) \<in> set d \<Longrightarrow> (k, v') \<in> set d \<Longrightarrow> v = v'"
  by (meson eq_key_imp_eq_value)

lemma unsubscribe_del_inv:
  assumes inv: "cache_inv b"
    and found: "dict_get sub_eq (m_subscriptions b) sub0 = Some ts"
    and loop: "unsubscribe_loop sub0 ts b = (Returned, b1)"
  shows "cache_inv (b1\<lparr>m_subscriptions := dict_del sub_eq (m_subscriptions b1) sub0\<rparr>)"
proof -
  let ?index = "m_subscriptions b"
  let ?index' = "dict_del sub_eq ?index sub0"
  let ?regs = "registered b"
  let ?regs' = "filter (\<lambda>s. \<not> sub_eq s sub0) ?regs"
  let ?b' = "b1\<lparr>m_subscriptions := dict_del sub_eq (m_subscriptions b1) sub0\<rparr>"
  have inv1: "cache_inv b1" and index1: "m_subscriptions b1 = ?index"
    using unsubscribe_loop_inv [OF inv, of sub0 ts] loop by simp_all
  have regs1: "registered b1 = ?regs"
    using index1 by (simp add: registered_def)
  have dr: "distinct (map sub_key ?regs)"
    using inv by (simp add: cache_inv_def)
  then have di: "distinct (map fst ?index)"
    using distinct_keys_distinct [of ?regs] by (simp add: registered_def dict_keys_def)
  obtain k where k: "(k, ts) \<in> set ?index" "sub_eq k sub0"
    using dict_get_Some_member [OF found] by blast
  then have kreg: "k \<in> set ?regs"
    by (force simp: registered_def dict_keys_def)
  have clean: "\<not> sub_eq s sub0"
    if g: "dict_get (=) (m_patterns b1) T = Some subs" and s: "s \<in> set subs" for T subs s
  proof
    assume e: "sub_eq s sub0"
    have h1: "holds b1 T s" using g s by (auto simp: holds_def)
    from unsubscribe_loop_removes [OF inv loop e h1]
    have h: "holds b T s" and nin: "T \<notin> set ts" by simp_all
    from h obtain subs0 where g0: "dict_get (=) (m_patterns b) T = Some subs0" and s0: "s \<in> set subs0"
      by (auto simp: holds_def)
    have o0: "ordered ?regs subs0" and l0: "listed ?index T subs0"
      using inv g0 by (simp_all add: cache_inv_def)
    have sreg: "s \<in> set ?regs" using ordered_subset [OF o0] s0 by auto
    have "sub_eq s k" using e k(2) by (blast intro: sub_eq_trans sub_eq_sym)
    then have "s = k" using sub_key_unique [OF dr sreg kreg] by simp
    moreover obtain ts' where "(s, ts') \<in> set ?index" "T \<in> set ts'"
      using l0 s0 by (auto simp: listed_def)
    ultimately have "T \<in> set ts"
      using distinct_keys_same_value [OF di, of k ts' ts] k(1) by simp
    then show False using nin by simp
  qed
  have regs': "registered ?b' = ?regs'"
    by (simp add: registered_def dict_keys_def dict_del_def index1 filter_map comp_def)
  show ?thesis
    unfolding cache_inv_def
  proof (intro conjI allI impI)
    show "distinct (map fst (m_patterns ?b'))"
      using inv1 by (simp add: cache_inv_def)
  next
    show "distinct (map sub_key (registered ?b'))"
      unfolding regs' using dr by (rule distinct_map_filter)
  next
    fix T subs
    assume "dict_get (=) (m_patterns ?b') T = Some subs"
    then have g: "dict_get (=) (m_patterns b1) T = Some subs" by simp
    have o: "ordered ?regs subs"
      using inv1 g regs1 by (simp add: cache_inv_def)
    have c: "\<And>s. s \<in> set subs \<Longrightarrow> \<not> sub_eq s sub0"
      using clean [OF g] by blast
    have "filter (\<lambda>s. \<not> sub_eq s sub0 \<and> s \<in> set subs) ?regs = filter (\<lambda>s. s \<in> set subs) ?regs"
      using c by (intro filter_cong) auto
    then have "filter (\<lambda>s. s \<in> set subs) ?regs' = filter (\<lambda>s. s \<in> set subs) ?regs"
      by simp
    with o have "ordered ?regs' subs"
      by (rule ordered_cong)
    then show "ordered (registered ?b') subs"
      by (simp only: regs')
  next
    fix T subs
    assume "dict_get (=) (m_patterns ?b') T = Some subs"
    then have g: "dict_get (=) (m_patterns b1) T = Some subs" by simp
    have l: "listed ?index T subs"
      using inv1 g index1 by (simp add: cache_inv_def)
    show "listed (m_subscriptions ?b') T subs"
      unfolding listed_def
    proof
      fix s assume s: "s \<in> set subs"
      then obtain ts' where "(s, ts') \<in> set ?index" "T \<in> set ts'"
        using l by (auto simp: listed_def)
      moreover have "\<not> sub_eq s sub0" using clean [OF g s] .
      ultimately show "\<exists>ts. (s, ts) \<in> set (m_subscriptions ?b') \<and> T \<in> set ts"
        by (auto simp: dict_del_def index1)
    qed
  qed
qed

lemma unsubscribe_inv:
  assumes "cache_inv b"
  shows "cache_inv (snd (unsubscribe b topic handler))"
proof (cases "valid_string topic \<and> callable handler")
  case False
  then show ?thesis using assms by (auto simp: unsubscribe_def)
next
  case ok: True
  show ?thesis
  proof (cases "Subscription_init topic handler 0")
    case (Inl err)
    then show ?thesis using assms ok by (simp add: unsubscribe_def)
  next
    case (Inr sub0)
    show ?thesis
    proof (cases "dict_get sub_eq (m_subscriptions b) sub0")
      case None
      then show ?thesis using assms ok Inr by (simp add: unsubscribe_def cache_inv_log_line)
    next
      case (Some ts)
      obtain out b1 where loop: "unsubscribe_loop sub0 ts b = (out, b1)"
        by (cases "unsubscribe_loop sub0 ts b")
      show ?thesis
      proof (cases out)
        case Returned
        have "cache_inv (b1\<lparr>m_subscriptions := dict_del sub_eq (m_subscriptions b1) sub0\<rparr>)"
          using assms Some loop unfolding Returned by (rule unsubscribe_del_inv)
        then show ?thesis
          using ok Inr Some loop Returned by (simp add: unsubscribe_def cache_inv_log_line)
      next
        case (Raised err)
        have "cache_inv b1"
          using unsubscribe_loop_inv [OF assms, of sub0 ts] loop by simp
        then show ?thesis
          using ok Inr Some loop Raised by (simp add: unsubscribe_def)
      qed
    qed
  qed
qed

lemma resolved_inv:
  assumes "cache_inv b"
  shows "cache_inv (snd (resolved b T))"
proof (cases "dict_get (=) (m_patterns b) T")
  case None
  then show ?thesis
    using resolve_subscriptions_inv [OF assms None] by (simp add: resolved_def)
next
  case (Some subs)
  then show ?thesis using assms by (simp add: resolved_def)
qed

lemma dispatch_cache:
  "m_patterns (snd (dispatch subs m b)) = m_patterns b \<and>
   m_subscriptions (snd (dispatch subs m b)) = m_subscriptions b"
proof -
  obtain n where "snd (dispatch subs m b) =
      b\<lparr>trace := trace b @ map (\<lambda>s. Call (sub_handler s) (Msg m)) (take n subs)\<rparr>"
    using dispatch_prefix [of subs m b] by blast
  then show ?thesis by simp
qed

lemma publish_cache:
  "m_patterns (snd (publish b (Some T) (Some m))) = m_patterns (snd (resolved b T)) \<and>
   m_subscriptions (snd (publish b (Some T) (Some m))) = m_subscriptions (snd (resolved b T))"
proof -
  obtain subs b1 where r: "resolved b T = (subs, b1)" by (cases "resolved b T")
  obtain out b2 where d: "dispatch subs m b1 = (out, b2)" by (cases "dispatch subs m b1")
  have "m_patterns b2 = m_patterns b1 \<and> m_subscriptions b2 = m_subscriptions b1"
    using dispatch_cache [of subs m b1] d by simp
  then show ?thesis
    using r d
    by (auto simp: publish_def publish_c_def publish_external_def
        split: outcome.splits option.splits prod.splits if_splits)
qed

lemma publish_inv:
  assumes "cache_inv b"
  shows "cache_inv (snd (publish b topic msg))"
proof (cases "\<exists>T m. topic = Some T \<and> msg = Some m")
  case False
  then have "snd (publish b topic msg) = b"
    by (cases topic; cases msg) (simp_all add: publish_def publish_c_def)
  then show ?thesis using assms by simp
next
  case True
  then obtain T m where tm: "topic = Some T" "msg = Some m" by blast
  have "cache_inv (snd (publish b (Some T) (Some m))) = cache_inv (snd (resolved b T))"
    using publish_cache [of b T m] by (intro cache_inv_fields) simp_all
  then show ?thesis using resolved_inv [OF assms, of T] tm by simp
qed

lemma apply_operation_inv:
  assumes "cache_inv b"
  shows "cache_inv (snd (apply_operation op b))"
proof (cases op)
  case (Register e h)
  have "cache_inv (snd (register b e h)) = cache_inv b"
    by (rule cache_inv_fields)
       (auto simp: register_def log_line_def split: option.splits)
  then show ?thesis using assms Register by simp
next
  case (Deregister e h)
  have "cache_inv (snd (deregister b e h)) = cache_inv b"
    by (rule cache_inv_fields)
       (auto simp: deregister_def log_line_def split: option.splits)
  then show ?thesis using assms Deregister by simp
next
  case (Send e m)
  have "cache_inv (snd (send b e m)) = cache_inv b"
    by (rule cache_inv_fields)
       (auto simp: send_def call_def log_line_def split: option.splits)
  then show ?thesis using assms Send by simp
next
  case (DoRequest e r)
  have "cache_inv (snd (request b e r)) = cache_inv b"
    by (rule cache_inv_fields)
       (auto simp: request_def call_def log_line_def Let_def split: option.splits)
  then show ?thesis using assms DoRequest by simp
next
  case (DoResponse r)
  have "cache_inv (snd (response b r)) = cache_inv b"
    by (rule cache_inv_fields)
       (auto simp: response_def call_def log_line_def Let_def split: option.splits)
  then show ?thesis using assms DoResponse by simp
next
  case (Subscribe tp h p)
  then show ?thesis using subscribe_inv [OF assms] by simp
next
  case (Unsubscribe tp h)
  then show ?thesis using unsubscribe_inv [OF assms] by simp
next
  case (Publish tp m)
  then show ?thesis using publish_inv [OF assms] by simp
qed

lemma run_inv: "cache_inv b \<Longrightarrow> cache_inv (run ops b)"
proof (induction ops arbitrary: b)
  case Nil
  then show ?case by (simp add: run_def)
next
  case (Cons op ops)
  have "run (op # ops) b = run ops (snd (apply_operation op b))"
    by (simp add: run_def)
  then show ?case
    using Cons.IH [OF apply_operation_inv [OF Cons.prems]] by simp
qed

lemma MessageBus_init_inv:
  "MessageBus_init name serializer config types = Inr (b0, config') \<Longrightarrow> cache_inv b0"
  by (auto simp: MessageBus_init_def Let_def cache_inv_def registered_def dict_keys_def
      split: if_splits)

lemma calls_map_Call:
  "calls (map (\<lambda>s. Call (sub_handler s) (Msg m)) subs) = map (\<lambda>s. (sub_handler s, Msg m)) subs"
  by (induction subs) simp_all

lemma resolved_form:
  assumes "cache_inv b"
  shows "\<exists>P. fst (resolved b topic) = sorted_reverse (filter P (registered b))"
proof (cases "dict_get (=) (m_patterns b) topic")
  case None
  then have "fst (resolved b topic) =
      sorted_reverse (filter (\<lambda>s. is_matching topic (sub_topic s)) (registered b))"
    by (simp add: resolved_def resolve_subscriptions_def registered_def Let_def)
  then show ?thesis by blast
next
  case (Some subs)
  then have "ordered (registered b) subs"
    using assms by (simp add: cache_inv_def)
  then have "sorted_reverse (filter (\<lambda>s. s \<in> set subs) (registered b)) = subs"
    by (rule ordered_eq)
  moreover have "fst (resolved b topic) = subs"
    using Some by (simp add: resolved_def)
  ultimately have "fst (resolved b topic) =
      sorted_reverse (filter (\<lambda>s. s \<in> set subs) (registered b))"
    by simp
  then show ?thesis by blast
qed

lemma publish_calls:
  assumes "publish b (Some topic) (Some m) = (out, b')"
  shows "\<exists>n \<le> length (fst (resolved b topic)).
           calls (trace b') = calls (trace b) @
             map (\<lambda>s. (sub_handler s, Msg m)) (take n (fst (resolved b topic))) \<and>
           (out = Returned \<longrightarrow> n = length (fst (resolved b topic)))"
proof -
  obtain subs b1 where r: "resolved b topic = (subs, b1)" by (cases "resolved b topic")
  have t1: "trace b1 = trace b" using resolved_fields [OF r] by simp
  obtain n where n: "n \<le> length subs"
    "fst (dispatch subs m b1) = Returned \<longrightarrow> n = length subs"
    "snd (dispatch subs m b1) =
       b1\<lparr>trace := trace b1 @ map (\<lambda>s. Call (sub_handler s) (Msg m)) (take n subs)\<rparr>"
    using dispatch_prefix [of subs m b1] by blast
  obtain out2 b2 where d: "dispatch subs m b1 = (out2, b2)" by (cases "dispatch subs m b1")
  have c2: "calls (trace b2) = calls (trace b) @ map (\<lambda>s. (sub_handler s, Msg m)) (take n subs)"
    using n(3) d t1 by (simp add: calls_append calls_map_Call)
  have "calls (trace b') = calls (trace b2) \<and> (out = Returned \<longrightarrow> out2 = Returned)"
    using assms r d
    by (auto simp: publish_def publish_c_def publish_external_def calls_append
        split: outcome.splits option.splits prod.splits if_splits)
  then have "calls (trace b') = calls (trace b) @ map (\<lambda>s. (sub_handler s, Msg m)) (take n subs) \<and>
             (out = Returned \<longrightarrow> n = length subs)"
    using c2 n(2) d by simp
  then show ?thesis using n(1) r by auto
qed

text \<open>
  The order of the index is the order of registration: a new subscription is put at the
  end, a repeated one changes nothing, an unsubscribe removes its subscription and keeps
  the order of the others, and a publish leaves the order as it is.
\<close>

lemma registered_subscribe:
  assumes "Subscription_init topic handler priority = Inr sub"
    and "fits_c_int priority"
    and "dict_get sub_eq (m_subscriptions b) sub = None"
  shows "registered (snd (subscribe b topic handler priority)) = registered b @ [sub]"
proof -
  have v: "valid_string topic" "callable handler"
    using assms(1) by (auto simp: Subscription_init_def split: if_splits)
  obtain cache' matches where
    "fold (subscribe_step sub) (dict_keys (m_patterns b)) (m_patterns b, []) = (cache', matches)"
    by (cases "fold (subscribe_step sub) (dict_keys (m_patterns b)) (m_patterns b, [])")
  then show ?thesis
    using assms v
    by (simp add: subscribe_def registered_def dict_keys_def log_line_def dict_set_keys_absent)
qed

lemma registered_subscribe_existing:
  assumes "Subscription_init topic handler priority = Inr sub"
    and "dict_get sub_eq (m_subscriptions b) sub = Some ts"
  shows "registered (snd (subscribe b topic handler priority)) = registered b"
  using assms
  by (auto simp: subscribe_def registered_def log_line_def)

lemma registered_unsubscribe:
  assumes "Subscription_init topic handler 0 = Inr sub"
    and "fst (unsubscribe b topic handler) = Returned"
  shows "registered (snd (unsubscribe b topic handler)) =
           filter (\<lambda>s. \<not> sub_eq s sub) (registered b)"
proof -
  have v: "valid_string topic" "callable handler"
    using assms(1) by (auto simp: Subscription_init_def split: if_splits)
  show ?thesis
  proof (cases "dict_get sub_eq (m_subscriptions b) sub")
    case None
    then have "\<forall>k \<in> set (registered b). \<not> sub_eq k sub"
      by (simp add: dict_get_None_iff registered_def dict_keys_def)
    then have "filter (\<lambda>s. \<not> sub_eq s sub) (registered b) = registered b"
      by simp
    then show ?thesis
      using None assms(1) v by (simp add: unsubscribe_def registered_def log_line_def)
  next
    case (Some ts)
    obtain out b1 where loop: "unsubscribe_loop sub ts b = (out, b1)"
      by (cases "unsubscribe_loop sub ts b")
    have out: "out = Returned"
      using assms Some loop v by (cases out) (simp_all add: unsubscribe_def)
    have "m_subscriptions b1 = m_subscriptions b"
      using unsubscribe_loop_fields [of sub ts b] loop by simp
    then show ?thesis
      using Some assms(1) v loop out
      by (simp add: unsubscribe_def registered_def dict_keys_def log_line_def dict_del_def
          filter_map comp_def)
  qed
qed

lemma registered_publish: "registered (snd (publish b topic msg)) = registered b"
proof (cases "\<exists>tp m. topic = Some tp \<and> msg = Some m")
  case False
  then show ?thesis
    by (cases topic; cases msg) (simp_all add: publish_def publish_c_def)
next
  case True
  then obtain tp m where tm: "topic = Some tp" "msg = Some m" by blast
  have "set (fst (resolve_subscriptions b tp)) \<subseteq> fst ` set (m_subscriptions b)"
    by (auto simp: resolve_subscriptions_def Let_def set_sorted_reverse dict_keys_def)
  then have "map fst (m_subscriptions (snd (resolve_subscriptions b tp))) = map fst (m_subscriptions b)"
    using fold_note_topic_keys [of "fst (resolve_subscriptions b tp)" "m_subscriptions b" tp]
    by (simp add: resolve_subscriptions_def Let_def)
  then have "registered (snd (resolved b tp)) = registered b"
    by (simp add: resolved_def registered_def dict_keys_def split: option.splits)
  then show ?thesis
    using publish_cache [of b tp m] tm by (simp add: registered_def)
qed

text \<open>
  The order among the handlers that publish does call. In every state the bus reaches
  from a fresh bus by any sequence of operations, a publish dispatches to the resolved
  subscriptions of the topic in this order: priorities descend along the dispatch
  sequence, and for each priority the subscriptions of that priority appear in the order
  in which they stand in the index, which is the order of their registration. The
  handlers called are those of the sequence, in its order, each with the message: all of
  them when publish returns, a prefix when a handler raises. When the topic has a cached
  entry, the sequence is that entry; when it has none, the sequence holds every
  registered subscription whose pattern matches the topic. So the defect of
  \<open>subscribe\<close> never inverts the order of two handlers: it leaves matching
  subscriptions out of a cached entry. The example has subscribers with priorities 10, 5
  and 10, called first, third, second.
\<close>

theorem publish_priority_order:
  assumes "MessageBus_init name serializer config types = Inr (b0, config')"
    and "b = run ops b0"
    and "publish b (Some topic) (Some m) = (out, b')"
    and "subs = fst (resolved b topic)"
  shows "sorted_wrt (\<lambda>x y. sub_priority x \<ge> sub_priority y) subs \<and>
         (\<forall>k. subseq (filter (\<lambda>s. sub_priority s = k) subs) (registered b)) \<and>
         (\<exists>n \<le> length subs.
            calls (trace b') = calls (trace b) @ map (\<lambda>s. (sub_handler s, Msg m)) (take n subs) \<and>
            (out = Returned \<longrightarrow> n = length subs)) \<and>
         (dict_get (=) (m_patterns b) topic = None \<longrightarrow>
            set subs = {s \<in> set (registered b). is_matching topic (sub_topic s)}) \<and>
         (\<forall>cached. dict_get (=) (m_patterns b) topic = Some cached \<longrightarrow> subs = cached)"
proof -
  have inv: "cache_inv b"
    unfolding assms(2) using assms(1) by (intro run_inv MessageBus_init_inv)
  obtain P where form: "subs = sorted_reverse (filter P (registered b))"
    using resolved_form [OF inv, of topic] assms(4) by auto
  have desc: "sorted_wrt (\<lambda>x y. sub_priority x \<ge> sub_priority y) subs"
    unfolding form by (rule sorted_reverse_descending)
  have stable: "subseq (filter (\<lambda>s. sub_priority s = k) subs) (registered b)" for k
  proof -
    have "filter (\<lambda>s. sub_priority s = k) subs =
          filter (\<lambda>s. sub_priority s = k) (filter P (registered b))"
      unfolding form by (rule sorted_reverse_stable)
    moreover have "subseq (filter (\<lambda>s. sub_priority s = k) (filter P (registered b))) (filter P (registered b))"
      by (rule subseq_filter_left)
    moreover have "subseq (filter P (registered b)) (registered b)"
      by (rule subseq_filter_left)
    ultimately show ?thesis
      by (metis subseq_order.order_trans)
  qed
  have miss: "dict_get (=) (m_patterns b) topic = None \<longrightarrow>
            set subs = {s \<in> set (registered b). is_matching topic (sub_topic s)}"
    unfolding assms(4)
    by (auto simp: resolved_def resolve_subscriptions_def registered_def Let_def set_sorted_reverse)
  have hit: "\<forall>cached. dict_get (=) (m_patterns b) topic = Some cached \<longrightarrow> subs = cached"
    unfolding assms(4) by (simp add: resolved_def)
  show ?thesis
    using desc stable miss hit publish_calls [OF assms(3)] assms(4) by blast
qed

theorem publish_priority_order_witness:
  "MessageBus_init None None None [] = Inr (fresh_bus, default_config) \<and>
   registered priority_bus =
     [Subscription ''T'' h1 10, Subscription ''T'' h2 5, Subscription ''T'' h3 10] \<and>
   fst (resolved priority_bus ''T'') =
     [Subscription ''T'' h1 10, Subscription ''T'' h3 10, Subscription ''T'' h2 5] \<and>
   fst (publish priority_bus (Some ''T'') (Some quote)) = Returned \<and>
   calls (trace (snd (publish priority_bus (Some ''T'') (Some quote)))) =
     [(h1, Msg quote), (h3, Msg quote), (h2, Msg quote)] \<and>
   sorted_wrt (\<lambda>x y. sub_priority x \<ge> sub_priority y) (fst (resolved priority_bus ''T'')) \<and>
   (\<forall>k. subseq (filter (\<lambda>s. sub_priority s = k) (fst (resolved priority_bus ''T'')))
          (registered priority_bus))"
proof -
  let ?b = priority_bus
  let ?subs = "[Subscription ''T'' h1 10, Subscription ''T'' h3 10, Subscription ''T'' h2 5]"
  have regs: "registered ?b =
     [Subscription ''T'' h1 10, Subscription ''T'' h2 5, Subscription ''T'' h3 10]"
    by code_simp
  have subs: "fst (resolved ?b ''T'') = ?subs"
    by code_simp
  have out: "fst (publish ?b (Some ''T'') (Some quote)) = Returned"
    by code_simp
  have before: "calls (trace ?b) = []"
    by code_simp
  have pub: "publish ?b (Some ''T'') (Some quote) =
      (Returned, snd (publish ?b (Some ''T'') (Some quote)))"
    using out by (cases "publish ?b (Some ''T'') (Some quote)") simp
  note inst = publish_priority_order [OF fresh_bus_init priority_bus_def pub refl]
  from inst obtain n where
    "calls (trace (snd (publish ?b (Some ''T'') (Some quote)))) =
       calls (trace ?b) @ map (\<lambda>s. (sub_handler s, Msg quote)) (take n (fst (resolved ?b ''T'')))"
    "n = length (fst (resolved ?b ''T''))"
    by blast
  then have "calls (trace (snd (publish ?b (Some ''T'') (Some quote)))) =
     [(h1, Msg quote), (h3, Msg quote), (h2, Msg quote)]"
    by (simp add: subs before)
  then show ?thesis
    using fresh_bus_init regs subs out inst by simp
qed


section \<open>Argument validation\<close>

text \<open>
  C9, as the specification states it, fails: \<open>send\<close> and \<open>publish\<close> accept the empty
  string. \<open>send\<close> finds no endpoint of that name, logs and returns; \<open>publish\<close> resolves
  the empty topic and counts the publication.
\<close>

theorem empty_string_accepted_counterexample:
  "send fresh_bus (Some []) (Some quote) =
     (Returned, fresh_bus\<lparr>trace := [Log LogError (CannotSend [])]\<rparr>) \<and>
   publish fresh_bus (Some []) (Some quote) =
     (Returned, fresh_bus\<lparr>m_patterns := [([], [])], pub_count := 1\<rparr>)"
  by (simp add: send_def publish_def publish_c_def resolved_def resolve_subscriptions_def
      dict_keys_def sorted_reverse_def publish_external_def log_line_def fresh_bus_def)

lemma Subscription_init_invalid:
  "\<not> fits_c_int priority \<Longrightarrow> Subscription_init topic handler priority = Inl OverflowError"
  "fits_c_int priority \<Longrightarrow> Subscription_init topic None priority = Inl TypeError"
  "fits_c_int priority \<Longrightarrow> Subscription_init (Some []) (Some h) priority = Inl InvalidArgument"
  "fits_c_int priority \<Longrightarrow> Subscription_init None (Some h) priority = Inl InvalidArgument"
  "fits_c_int priority \<Longrightarrow> priority < 0 \<Longrightarrow>
     Subscription_init topic (Some h) priority = Inl InvalidArgument"
  by (auto simp: Subscription_init_def valid_string_def callable_def not_negative_int_def
      split: option.splits)

text \<open>
  No operation registers an endpoint under the empty string: \<open>register\<close> refuses it.
\<close>

lemma unsubscribe_loop_endpoints:
  "m_endpoints (snd (unsubscribe_loop sub ts b)) = m_endpoints b"
proof (induction ts arbitrary: b)
  case Nil
  then show ?case by simp
next
  case (Cons t ts)
  show ?case
  proof (cases "dict_get (=) (m_patterns b) t")
    case None
    then show ?thesis by simp
  next
    case (Some subs)
    show ?thesis
    proof (cases "list_remove sub subs")
      case None
      then show ?thesis using Some by simp
    next
      case rem: (Some subs')
      let ?b = "b\<lparr>m_patterns := dict_set (=) (m_patterns b) t (sorted_reverse subs')\<rparr>"
      show ?thesis using Cons.IH [of ?b] Some rem by simp
    qed
  qed
qed

lemma subscribe_endpoints:
  "m_endpoints (snd (subscribe b topic handler priority)) = m_endpoints b"
  by (auto simp: subscribe_def log_line_def split: option.splits sum.splits prod.splits)

lemma unsubscribe_endpoints:
  "m_endpoints (snd (unsubscribe b topic handler)) = m_endpoints b"
proof -
  have "\<And>sub ts out b1. unsubscribe_loop sub ts b = (out, b1) \<Longrightarrow> m_endpoints b1 = m_endpoints b"
    using unsubscribe_loop_endpoints by (metis snd_conv)
  then show ?thesis
    by (auto simp: unsubscribe_def log_line_def
        split: option.splits sum.splits prod.splits outcome.splits)
qed

lemma publish_endpoints:
  "m_endpoints (snd (publish b topic msg)) = m_endpoints b"
proof (cases "\<exists>tp m. topic = Some tp \<and> msg = Some m")
  case False
  then show ?thesis
    by (cases topic; cases msg) (simp_all add: publish_def publish_c_def)
next
  case True
  then obtain tp m where tm: "topic = Some tp" "msg = Some m" by blast
  obtain subs b1 where r: "resolved b tp = (subs, b1)" by (cases "resolved b tp")
  obtain out b2 where d: "dispatch subs m b1 = (out, b2)" by (cases "dispatch subs m b1")
  obtain n where "snd (dispatch subs m b1) =
      b1\<lparr>trace := trace b1 @ map (\<lambda>s. Call (sub_handler s) (Msg m)) (take n subs)\<rparr>"
    using dispatch_prefix [of subs m b1] by blast
  then have "m_endpoints b2 = m_endpoints b"
    using d resolved_fields [OF r] by simp
  then show ?thesis
    using tm r d
    by (auto simp: publish_def publish_c_def publish_external_def
        split: outcome.splits option.splits prod.splits if_splits)
qed

lemma apply_operation_empty_endpoint:
  assumes "dict_get (=) (m_endpoints b) [] = None"
  shows "dict_get (=) (m_endpoints (snd (apply_operation op b))) [] = None"
proof (cases op)
  case (Register e h)
  show ?thesis
  proof (cases "e = Some []")
    case True
    then show ?thesis using assms Register by (simp add: register_def valid_string_def)
  next
    case False
    then show ?thesis using assms Register
      by (auto simp: register_def log_line_def dict_get_set_other split: option.splits)
  qed
next
  case (Deregister e h)
  have "\<And>k. dict_get (=) (dict_del (=) (m_endpoints b) k) [] = None"
    using assms dict_get_del_same [of "m_endpoints b" "[]"] dict_get_del_other [of "[]" _ "m_endpoints b"]
    by metis
  then show ?thesis using assms Deregister
    by (auto simp: deregister_def log_line_def split: option.splits)
next
  case (Send e m)
  then show ?thesis using assms
    by (auto simp: send_def call_def log_line_def split: option.splits)
next
  case (DoRequest e r)
  then show ?thesis using assms
    by (auto simp: request_def call_def log_line_def Let_def split: option.splits)
next
  case (DoResponse r)
  then show ?thesis using assms
    by (auto simp: response_def call_def log_line_def Let_def split: option.splits)
next
  case (Subscribe tp h p)
  then show ?thesis using assms by (simp add: subscribe_endpoints)
next
  case (Unsubscribe tp h)
  then show ?thesis using assms by (simp add: unsubscribe_endpoints)
next
  case (Publish tp m)
  then show ?thesis using assms by (simp add: publish_endpoints)
qed

lemma run_empty_endpoint:
  "dict_get (=) (m_endpoints b) [] = None \<Longrightarrow> dict_get (=) (m_endpoints (run ops b)) [] = None"
proof (induction ops arbitrary: b)
  case Nil
  then show ?case by (simp add: run_def)
next
  case (Cons op ops)
  have "run (op # ops) b = run ops (snd (apply_operation op b))"
    by (simp add: run_def)
  then show ?case
    using Cons.IH [OF apply_operation_empty_endpoint [OF Cons.prems]] by simp
qed

lemma publish_not_InvalidArgument:
  "fst (publish b (Some topic) (Some m)) \<noteq> Raised InvalidArgument"
proof -
  obtain subs b1 where res: "resolved b topic = (subs, b1)" by (cases "resolved b topic")
  have "\<And>e. fst (dispatch subs m b1) = Raised e \<Longrightarrow> e \<noteq> InvalidArgument"
  proof (induction subs arbitrary: b1)
    case Nil
    then show ?case by simp
  next
    case (Cons s subs)
    then show ?case
      by (cases "raises (sub_handler s)") (auto simp: call_def)
  qed
  then show ?thesis
    using res
    by (cases "dispatch subs m b1")
       (auto simp: publish_def publish_c_def publish_external_def
         split: outcome.splits option.splits prod.splits if_splits)
qed

lemma publish_pub_count:
  assumes "fst (publish b (Some topic) (Some m)) = Returned"
  shows "pub_count (snd (publish b (Some topic) (Some m))) = pub_count b + 1"
proof -
  obtain subs b1 where r: "resolved b topic = (subs, b1)" by (cases "resolved b topic")
  obtain out b2 where d: "dispatch subs m b1 = (out, b2)" by (cases "dispatch subs m b1")
  obtain n where "snd (dispatch subs m b1) =
      b1\<lparr>trace := trace b1 @ map (\<lambda>s. Call (sub_handler s) (Msg m)) (take n subs)\<rparr>"
    using dispatch_prefix [of subs m b1] by blast
  then have "pub_count b2 = pub_count b"
    using d resolved_fields [OF r] by simp
  then show ?thesis
    using assms r d
    by (auto simp: publish_def publish_c_def publish_external_def
        split: outcome.splits option.splits prod.splits if_splits)
qed

text \<open>
  C9, amended. On every bus, \<open>register\<close>, \<open>deregister\<close>, \<open>subscribe\<close>,
  \<open>unsubscribe\<close>, \<open>is_subscribed\<close>, \<open>subscriptions\<close>, \<open>has_subscribers\<close> and the
  constructor of the bus raise \<open>InvalidArgument\<close> on an empty (or null) string, and those
  that take a handler raise it on a null handler. The priority of \<open>subscribe\<close> and of the
  constructor of a subscription is a C \<^verbatim>\<open>int\<close>: outside its range the call raises
  \<^verbatim>\<open>OverflowError\<close>; within it \<open>subscribe\<close> raises \<open>InvalidArgument\<close> on a negative
  priority, and the constructor of a subscription raises \<^verbatim>\<open>TypeError\<close> on a null
  handler and \<open>InvalidArgument\<close> on an empty (or null) topic or a negative priority.
  \<open>send\<close>, \<open>request\<close>, \<open>response\<close>, \<open>publish\<close> and \<open>is_pending_request\<close> raise
  \<open>InvalidArgument\<close> on a null argument only. Given the empty string, in every state the
  bus reaches from a fresh bus by any sequence of operations: \<open>send\<close> logs the error and
  returns, the state otherwise unchanged; \<open>request\<close> logs the duplicate identifier and
  returns when the identifier is pending, and otherwise records the callback, logs the
  error and returns; \<open>publish\<close> does not raise \<open>InvalidArgument\<close>, it calls the handlers
  resolved for the empty topic and, when they all return, adds one to \<open>pub_count\<close>.
\<close>

theorem argument_validation:
  assumes "MessageBus_init name0 serializer0 config0 types0 = Inr (b0, config0')"
    and "b = run ops b0"
  shows
  "register a (Some []) handler = (Raised InvalidArgument, a) \<and>
   register a None handler = (Raised InvalidArgument, a) \<and>
   register a endpoint None = (Raised InvalidArgument, a) \<and>
   deregister a (Some []) handler = (Raised InvalidArgument, a) \<and>
   deregister a None handler = (Raised InvalidArgument, a) \<and>
   deregister a endpoint None = (Raised InvalidArgument, a) \<and>
   (fits_c_int priority \<longrightarrow>
      subscribe a (Some []) handler priority = (Raised InvalidArgument, a) \<and>
      subscribe a None handler priority = (Raised InvalidArgument, a) \<and>
      subscribe a topic None priority = (Raised InvalidArgument, a) \<and>
      Subscription_init (Some []) (Some h) priority = Inl InvalidArgument \<and>
      Subscription_init None (Some h) priority = Inl InvalidArgument \<and>
      Subscription_init topic None priority = Inl TypeError) \<and>
   (fits_c_int priority \<and> priority < 0 \<longrightarrow>
      subscribe a topic handler priority = (Raised InvalidArgument, a) \<and>
      Subscription_init topic (Some h) priority = Inl InvalidArgument) \<and>
   (\<not> fits_c_int priority \<longrightarrow>
      subscribe a topic handler priority = (Raised OverflowError, a) \<and>
      Subscription_init topic handler priority = Inl OverflowError) \<and>
   unsubscribe a (Some []) handler = (Raised InvalidArgument, a) \<and>
   unsubscribe a None handler = (Raised InvalidArgument, a) \<and>
   unsubscribe a topic None = (Raised InvalidArgument, a) \<and>
   is_subscribed a (Some []) handler = Inl InvalidArgument \<and>
   is_subscribed a None handler = Inl InvalidArgument \<and>
   is_subscribed a topic None = Inl InvalidArgument \<and>
   subscriptions a (Some []) = Inl InvalidArgument \<and>
   has_subscribers a (Some []) = Inl InvalidArgument \<and>
   MessageBus_init (Some []) serializer config types = Inl InvalidArgument \<and>
   send a None msg = (Raised InvalidArgument, a) \<and>
   send a endpoint None = (Raised InvalidArgument, a) \<and>
   request a None req = (Raised InvalidArgument, a) \<and>
   request a endpoint None = (Raised InvalidArgument, a) \<and>
   response a None = (Raised InvalidArgument, a) \<and>
   publish a None msg = (Raised InvalidArgument, a) \<and>
   publish a topic None = (Raised InvalidArgument, a) \<and>
   is_pending_request a None = Inl InvalidArgument \<and>
   send b (Some []) (Some m) =
     (Returned, b\<lparr>trace := trace b @ [Log LogError (CannotSend [])]\<rparr>) \<and>
   (dict_get (=) (m_correlation_index b) (request_id r) \<noteq> None \<longrightarrow>
      request b (Some []) (Some r) =
        (Returned, b\<lparr>trace := trace b @ [Log LogError (DuplicateRequestId (request_id r))]\<rparr>)) \<and>
   (dict_get (=) (m_correlation_index b) (request_id r) = None \<longrightarrow>
      request b (Some []) (Some r) =
        (Returned,
         b\<lparr>m_correlation_index :=
             dict_set (=) (m_correlation_index b) (request_id r) (callback r),
           trace := trace b @ [Log LogError (CannotHandleRequest [])]\<rparr>)) \<and>
   fst (publish b (Some []) (Some m)) \<noteq> Raised InvalidArgument \<and>
   (\<exists>n \<le> length (fst (resolved b [])).
      calls (trace (snd (publish b (Some []) (Some m)))) =
        calls (trace b) @ map (\<lambda>s. (sub_handler s, Msg m)) (take n (fst (resolved b []))) \<and>
      (fst (publish b (Some []) (Some m)) = Returned \<longrightarrow>
         n = length (fst (resolved b [])) \<and>
         pub_count (snd (publish b (Some []) (Some m))) = pub_count b + 1))"
proof -
  have reg: "register a (Some []) handler = (Raised InvalidArgument, a)"
    "register a None handler = (Raised InvalidArgument, a)"
    "register a endpoint None = (Raised InvalidArgument, a)"
    by (simp_all add: register_def valid_string_def callable_def)
  have dereg: "deregister a (Some []) handler = (Raised InvalidArgument, a)"
    "deregister a None handler = (Raised InvalidArgument, a)"
    "deregister a endpoint None = (Raised InvalidArgument, a)"
    by (simp_all add: deregister_def valid_string_def callable_def)
  have sub: "fits_c_int priority \<longrightarrow>
      subscribe a (Some []) handler priority = (Raised InvalidArgument, a) \<and>
      subscribe a None handler priority = (Raised InvalidArgument, a) \<and>
      subscribe a topic None priority = (Raised InvalidArgument, a) \<and>
      Subscription_init (Some []) (Some h) priority = Inl InvalidArgument \<and>
      Subscription_init None (Some h) priority = Inl InvalidArgument \<and>
      Subscription_init topic None priority = Inl TypeError"
    by (simp add: subscribe_def valid_string_def callable_def Subscription_init_invalid)
  have neg: "fits_c_int priority \<and> priority < 0 \<longrightarrow>
      subscribe a topic handler priority = (Raised InvalidArgument, a) \<and>
      Subscription_init topic (Some h) priority = Inl InvalidArgument"
    by (cases handler) (simp_all add: subscribe_def callable_def Subscription_init_invalid)
  have ovf: "\<not> fits_c_int priority \<longrightarrow>
      subscribe a topic handler priority = (Raised OverflowError, a) \<and>
      Subscription_init topic handler priority = Inl OverflowError"
    by (simp add: subscribe_def Subscription_init_invalid)
  have unsub: "unsubscribe a (Some []) handler = (Raised InvalidArgument, a)"
    "unsubscribe a None handler = (Raised InvalidArgument, a)"
    "unsubscribe a topic None = (Raised InvalidArgument, a)"
    by (simp_all add: unsubscribe_def valid_string_def callable_def)
  have issub: "is_subscribed a (Some []) handler = Inl InvalidArgument"
    "is_subscribed a None handler = Inl InvalidArgument"
    "is_subscribed a topic None = Inl InvalidArgument"
    by (simp_all add: is_subscribed_def valid_string_def callable_def)
  have subs: "subscriptions a (Some []) = Inl InvalidArgument"
    "has_subscribers a (Some []) = Inl InvalidArgument"
    by (simp_all add: subscriptions_def has_subscribers_def valid_string_def)
  have init: "MessageBus_init (Some []) serializer config types = Inl InvalidArgument"
    by (simp add: MessageBus_init_def valid_string_def)
  have none: "send a None msg = (Raised InvalidArgument, a)"
    "send a endpoint None = (Raised InvalidArgument, a)"
    "request a None req = (Raised InvalidArgument, a)"
    "request a endpoint None = (Raised InvalidArgument, a)"
    "response a None = (Raised InvalidArgument, a)"
    "publish a None msg = (Raised InvalidArgument, a)"
    "publish a topic None = (Raised InvalidArgument, a)"
    "is_pending_request a None = Inl InvalidArgument"
    by (simp_all add: send_def request_def response_def publish_def publish_c_def
        is_pending_request_def split: option.splits)
  have "dict_get (=) (m_endpoints b0) [] = None"
    using MessageBus_init_fresh(1) [OF assms(1)] by simp
  then have no_endpoint: "dict_get (=) (m_endpoints b) [] = None"
    unfolding assms(2) by (rule run_empty_endpoint)
  have s: "send b (Some []) (Some m) =
     (Returned, b\<lparr>trace := trace b @ [Log LogError (CannotSend [])]\<rparr>)"
    using no_endpoint by (simp add: send_def log_line_def)
  have dup: "dict_get (=) (m_correlation_index b) (request_id r) \<noteq> None \<longrightarrow>
      request b (Some []) (Some r) =
        (Returned, b\<lparr>trace := trace b @ [Log LogError (DuplicateRequestId (request_id r))]\<rparr>)"
    by (auto simp: request_def log_line_def)
  have new: "dict_get (=) (m_correlation_index b) (request_id r) = None \<longrightarrow>
      request b (Some []) (Some r) =
        (Returned,
         b\<lparr>m_correlation_index :=
             dict_set (=) (m_correlation_index b) (request_id r) (callback r),
           trace := trace b @ [Log LogError (CannotHandleRequest [])]\<rparr>)"
    using no_endpoint by (simp add: request_def log_line_def)
  have p: "fst (publish b (Some []) (Some m)) \<noteq> Raised InvalidArgument"
    by (rule publish_not_InvalidArgument)
  obtain n where n: "n \<le> length (fst (resolved b []))"
    "calls (trace (snd (publish b (Some []) (Some m)))) =
       calls (trace b) @ map (\<lambda>s. (sub_handler s, Msg m)) (take n (fst (resolved b [])))"
    "fst (publish b (Some []) (Some m)) = Returned \<longrightarrow> n = length (fst (resolved b []))"
    using publish_calls [of b "[]" m "fst (publish b (Some []) (Some m))"
        "snd (publish b (Some []) (Some m))"]
    by auto
  have "fst (publish b (Some []) (Some m)) = Returned \<longrightarrow>
         n = length (fst (resolved b [])) \<and>
         pub_count (snd (publish b (Some []) (Some m))) = pub_count b + 1"
    using n(3) publish_pub_count [of b "[]" m] by simp
  then have pc: "\<exists>n \<le> length (fst (resolved b [])).
      calls (trace (snd (publish b (Some []) (Some m)))) =
        calls (trace b) @ map (\<lambda>s. (sub_handler s, Msg m)) (take n (fst (resolved b []))) \<and>
      (fst (publish b (Some []) (Some m)) = Returned \<longrightarrow>
         n = length (fst (resolved b [])) \<and>
         pub_count (snd (publish b (Some []) (Some m))) = pub_count b + 1)"
    using n(1,2) by blast
  show ?thesis
    by (intro conjI reg dereg sub neg ovf unsub issub subs init none s dup new p pc)
qed

theorem argument_validation_witness:
  "MessageBus_init None None None [] = Inr (fresh_bus, default_config) \<and>
   validated_bus =
     run [Register (Some []) (Some h1), Register (Some ''svc'') (Some svc_handler),
          DoRequest (Some ''svc'') (Some (Request 7 h1))] fresh_bus \<and>
   register validated_bus (Some []) (Some h1) = (Raised InvalidArgument, validated_bus) \<and>
   fits_c_int 0 \<and>
   subscribe validated_bus (Some []) (Some h1) 0 = (Raised InvalidArgument, validated_bus) \<and>
   subscribe validated_bus (Some ''T'') None 0 = (Raised InvalidArgument, validated_bus) \<and>
   Subscription_init (Some []) (Some h1) 0 = Inl InvalidArgument \<and>
   Subscription_init (Some ''T'') None 0 = Inl TypeError \<and>
   fits_c_int (- 1) \<and> (- 1 :: int) < 0 \<and>
   subscribe validated_bus (Some ''T'') (Some h1) (- 1) = (Raised InvalidArgument, validated_bus) \<and>
   Subscription_init (Some ''T'') (Some h1) (- 1) = Inl InvalidArgument \<and>
   \<not> fits_c_int (2 ^ 31) \<and>
   subscribe validated_bus (Some ''T'') (Some h1) (2 ^ 31) = (Raised OverflowError, validated_bus) \<and>
   Subscription_init (Some ''T'') (Some h1) (2 ^ 31) = Inl OverflowError \<and>
   send validated_bus (Some []) (Some quote) =
     (Returned, validated_bus\<lparr>trace := trace validated_bus @ [Log LogError (CannotSend [])]\<rparr>) \<and>
   dict_get (=) (m_correlation_index validated_bus) 7 \<noteq> None \<and>
   request validated_bus (Some []) (Some (Request 7 h1)) =
     (Returned,
      validated_bus\<lparr>trace := trace validated_bus @ [Log LogError (DuplicateRequestId 7)]\<rparr>) \<and>
   dict_get (=) (m_correlation_index validated_bus) 8 = None \<and>
   request validated_bus (Some []) (Some (Request 8 h1)) =
     (Returned,
      validated_bus\<lparr>m_correlation_index := dict_set (=) (m_correlation_index validated_bus) 8 h1,
        trace := trace validated_bus @ [Log LogError (CannotHandleRequest [])]\<rparr>) \<and>
   fst (publish validated_bus (Some []) (Some quote)) = Returned \<and>
   pub_count (snd (publish validated_bus (Some []) (Some quote))) = pub_count validated_bus + 1"
proof -
  have a: "fits_c_int 0" "fits_c_int (- 1)" "(- 1 :: int) < 0" "\<not> fits_c_int (2 ^ 31)"
    by (simp_all add: fits_c_int_def)
  have c: "dict_get (=) (m_correlation_index validated_bus) 7 \<noteq> None"
    "dict_get (=) (m_correlation_index validated_bus) 8 = None"
    "fst (publish validated_bus (Some []) (Some quote)) = Returned"
    by code_simp+
  note inst = argument_validation [OF fresh_bus_init validated_bus_def]
  show ?thesis
    using a c fresh_bus_init validated_bus_def
      inst [where a = validated_bus and handler = "Some h1" and topic = "Some ''T''"
          and priority = 0 and h = h1 and m = quote and r = "Request 7 h1"]
      inst [where a = validated_bus and handler = "Some h1" and topic = "Some ''T''"
          and priority = "- 1" and h = h1 and m = quote and r = "Request 8 h1"]
      inst [where a = validated_bus and handler = "Some h1" and topic = "Some ''T''"
          and priority = "2 ^ 31" and h = h1 and m = quote and r = "Request 8 h1"]
    by simp
qed

end
